theory Spec2Isabelle
  imports Main "HOL-Library.Word"
begin

unbundle bit_operations_syntax

section \<open>The Tramp VTX protocol engine (src/main/io/vtx_tramp.c)\<close>

text \<open>
  The C file keeps the whole controller in file-level variables. They are collected in one
  record, passed explicitly to every function and returned updated. The serial port the
  code talks to is part of that record: \<open>trampSerialPort\<close> says whether the pointer is
  non-NULL, \<open>serialRx\<close> holds the bytes waiting to be read (what
  \<open>serialRxBytesWaiting\<close> counts and \<open>serialRead\<close> pops), and \<open>serialTx\<close> the
  16-byte buffers handed to \<open>serialWriteBuf\<close>, oldest first.
\<close>

type_synonym u8 = "8 word"
type_synonym u16 = "16 word"
type_synonym u32 = "32 word"

datatype trampStatus_e =
    TRAMP_STATUS_BAD_DEVICE
  | TRAMP_STATUS_OFFLINE
  | TRAMP_STATUS_ONLINE
  | TRAMP_STATUS_SET_FREQ_PW
  | TRAMP_STATUS_CHECK_FREQ_PW

text \<open>The enumerators' integer values: BAD_DEVICE is -1, the others count up from 0.\<close>

fun status_val :: "trampStatus_e \<Rightarrow> int" where
  "status_val TRAMP_STATUS_BAD_DEVICE = -1"
| "status_val TRAMP_STATUS_OFFLINE = 0"
| "status_val TRAMP_STATUS_ONLINE = 1"
| "status_val TRAMP_STATUS_SET_FREQ_PW = 2"
| "status_val TRAMP_STATUS_CHECK_FREQ_PW = 3"

datatype trampReceiveState_e = S_WAIT_LEN | S_WAIT_CODE | S_DATA

datatype error = OutOfBounds

record tramp =
  trampSerialPort :: bool
  serialRx :: "u8 list"
  serialTx :: "u8 list list"
  trampReqBuffer :: "u8 list"
  trampRespBuffer :: "u8 list"
  trampStatus :: trampStatus_e
  trampRFFreqMin :: u32
  trampRFFreqMax :: u32
  trampRFPowerMax :: u32
  trampCurFreq :: u32
  trampCurBand :: u8
  trampCurChan :: u8
  trampCurPower :: u16
  trampCurConfigPower :: u16
  trampCurPitmode :: u8
  trampConfFreq :: u32
  trampConfPower :: u16
  trampReceiveState :: trampReceiveState_e
  trampReceivePos :: int
  lastQueryTimeUs :: u32

text \<open>The variables as the C initialisers leave them, before \<open>trampInit\<close>.\<close>

definition tramp_init :: tramp where
  "tramp_init =
     \<lparr> trampSerialPort = False, serialRx = [], serialTx = [],
       trampReqBuffer = replicate 16 0, trampRespBuffer = replicate 16 0,
       trampStatus = TRAMP_STATUS_OFFLINE,
       trampRFFreqMin = 0, trampRFFreqMax = 0, trampRFPowerMax = 0,
       trampCurFreq = 0, trampCurBand = 0, trampCurChan = 0,
       trampCurPower = 0, trampCurConfigPower = 0, trampCurPitmode = 0,
       trampConfFreq = 0, trampConfPower = 0,
       trampReceiveState = S_WAIT_LEN, trampReceivePos = 0,
       lastQueryTimeUs = 0 \<rparr>"

subsection \<open>Building and sending a command frame\<close>

text \<open>\<open>trampWriteBuf\<close>: the 16 bytes of the buffer go out on the port.\<close>

definition trampWriteBuf :: "u8 list \<Rightarrow> tramp \<Rightarrow> tramp" where
  "trampWriteBuf buf s = s\<lparr>serialTx := serialTx s @ [take 16 buf]\<rparr>"

text \<open>\<open>trampChecksum\<close>: the loop \<open>for (i = 1; i < 14; i++) cksum += trampBuf[i]\<close>
  on an 8-bit accumulator.\<close>

definition trampChecksum :: "u8 list \<Rightarrow> u8" where
  "trampChecksum trampBuf = fold (\<lambda>i cksum. cksum + trampBuf ! i) [1..<14] 0"

definition trampCmdU16 :: "u8 \<Rightarrow> u16 \<Rightarrow> tramp \<Rightarrow> tramp" where
  "trampCmdU16 cmd param s =
     (if \<not> trampSerialPort s then s
      else
        let b0 = replicate 16 (0::u8);
            b1 = b0[0 := 15];
            b2 = b1[1 := cmd];
            b3 = b2[2 := ucast (param AND 0xff)];
            b4 = b3[3 := ucast (drop_bit 8 param AND 0xff)];
            b5 = b4[14 := trampChecksum b4]
        in trampWriteBuf b5 (s\<lparr>trampReqBuffer := b5\<rparr>))"

definition trampSetFreq :: "u16 \<Rightarrow> tramp \<Rightarrow> tramp" where
  "trampSetFreq freq s = s\<lparr>trampConfFreq := ucast freq\<rparr>"

definition trampSendFreq :: "u16 \<Rightarrow> tramp \<Rightarrow> tramp" where
  "trampSendFreq freq s = trampCmdU16 70 freq s"

text \<open>
  \<open>trampSetBandChan\<close> reads \<open>vtx58FreqTable[band - 1][chan - 1]\<close>. The table is declared
  in another file and is a parameter here, a list of rows. The two \<open>uint8_t\<close> arguments are
  promoted to \<open>int\<close> before the subtraction, so 0 gives the index -1. C does not check the
  indices; a read outside the table is the error \<open>OutOfBounds\<close>.
\<close>

definition trampSetBandChan :: "u16 list list \<Rightarrow> u8 \<Rightarrow> u8 \<Rightarrow> tramp \<Rightarrow> error + tramp" where
  "trampSetBandChan vtx58FreqTable band chan s =
     (let i = uint band - 1; j = uint chan - 1 in
      if 0 \<le> i \<and> i < int (length vtx58FreqTable)
         \<and> 0 \<le> j \<and> j < int (length (vtx58FreqTable ! nat i))
      then Inr (trampSetFreq (vtx58FreqTable ! nat i ! nat j) s)
      else Inl OutOfBounds)"

definition trampSetRFPower :: "u16 \<Rightarrow> tramp \<Rightarrow> tramp" where
  "trampSetRFPower level s = s\<lparr>trampConfPower := level\<rparr>"

definition trampSendRFPower :: "u16 \<Rightarrow> tramp \<Rightarrow> tramp" where
  "trampSendRFPower level s = trampCmdU16 80 level s"

text \<open>\<open>trampCommitChanges\<close> returns false on error.\<close>

definition trampCommitChanges :: "tramp \<Rightarrow> bool \<times> tramp" where
  "trampCommitChanges s =
     (if trampStatus s \<noteq> TRAMP_STATUS_ONLINE then (False, s)
      else (True, s\<lparr>trampStatus := TRAMP_STATUS_SET_FREQ_PW\<rparr>))"

definition trampSetPitmode :: "u8 \<Rightarrow> tramp \<Rightarrow> tramp" where
  "trampSetPitmode onoff s = trampCmdU16 73 (if onoff \<noteq> 0 then 0 else 1) s"

subsection \<open>Interpreting a response\<close>

text \<open>
  \<open>trampHandleResponse\<close> returns the completed response code, or 0. The expressions
  \<open>buf[i] | (buf[i+1] << 8)\<close> are computed on \<open>int\<close> and stored in a 16-bit or 32-bit
  variable. \<open>vtx58_Freq2Bandchan\<close> is defined elsewhere; it is the parameter \<open>f2bc\<close>,
  which receives the frequency and the current band and channel and returns the new ones.
\<close>

definition le16 :: "u8 \<Rightarrow> u8 \<Rightarrow> u16" where
  "le16 lo hi = ucast lo OR push_bit 8 (ucast hi)"

definition trampHandleResponse :: "(u32 \<Rightarrow> u8 \<times> u8 \<Rightarrow> u8 \<times> u8) \<Rightarrow> tramp \<Rightarrow> u8 \<times> tramp" where
  "trampHandleResponse f2bc s =
     (let buf = trampRespBuffer s; respCode = buf ! 1 in
      if respCode = 114 then
        (let min_freq = le16 (buf ! 2) (buf ! 3) in
         if min_freq \<noteq> 0 then
           (114, s\<lparr>trampRFFreqMin := ucast min_freq,
                   trampRFFreqMax := ucast (le16 (buf ! 4) (buf ! 5)),
                   trampRFPowerMax := ucast (le16 (buf ! 6) (buf ! 7))\<rparr>)
         else (0, s))
      else if respCode = 118 then
        (let freq = le16 (buf ! 2) (buf ! 3) in
         if freq \<noteq> 0 then
           (let s1 = s\<lparr>trampCurFreq := ucast freq,
                        trampCurConfigPower := le16 (buf ! 4) (buf ! 5),
                        trampCurPitmode := buf ! 7,
                        trampCurPower := le16 (buf ! 8) (buf ! 9)\<rparr>;
                bc = f2bc (trampCurFreq s1) (trampCurBand s1, trampCurChan s1)
            in (118, s1\<lparr>trampCurBand := fst bc, trampCurChan := snd bc\<rparr>))
         else (0, s))
      else (0, s))"

subsection \<open>The frame receiver\<close>

definition trampResetReceiver :: "tramp \<Rightarrow> tramp" where
  "trampResetReceiver s = s\<lparr>trampReceiveState := S_WAIT_LEN, trampReceivePos := 0\<rparr>"

definition trampIsValidResponseCode :: "u8 \<Rightarrow> bool" where
  "trampIsValidResponseCode code = (if code = 114 \<or> code = 118 \<or> code = 115 then True else False)"

text \<open>
  One turn of the \<open>while\<close> loop of \<open>trampReceive\<close> on the byte \<open>c\<close> just read. The store
  \<open>trampRespBuffer[trampReceivePos++] = c\<close> comes first, whatever the state; outside the 16
  bytes of the buffer it is the error \<open>OutOfBounds\<close>. The result \<open>Some r\<close> is the
  \<open>return\<close> inside the loop, \<open>None\<close> goes on to the next byte.
\<close>

definition trampReceive_byte ::
    "(u32 \<Rightarrow> u8 \<times> u8 \<Rightarrow> u8 \<times> u8) \<Rightarrow> u8 \<Rightarrow> tramp \<Rightarrow> error + (u8 option \<times> tramp)" where
  "trampReceive_byte f2bc c s =
     (let p = trampReceivePos s in
      if p < 0 \<or> 16 \<le> p then Inl OutOfBounds
      else
        let s1 = s\<lparr>trampRespBuffer := (trampRespBuffer s)[nat p := c],
                     trampReceivePos := p + 1\<rparr>
        in case trampReceiveState s1 of
             S_WAIT_LEN \<Rightarrow>
               if c = 0x0F then Inr (None, s1\<lparr>trampReceiveState := S_WAIT_CODE\<rparr>)
               else Inr (None, s1\<lparr>trampReceivePos := 0\<rparr>)
           | S_WAIT_CODE \<Rightarrow>
               if trampIsValidResponseCode c then Inr (None, s1\<lparr>trampReceiveState := S_DATA\<rparr>)
               else Inr (None, trampResetReceiver s1)
           | S_DATA \<Rightarrow>
               if trampReceivePos s1 = 16 then
                 (let cksum = trampChecksum (trampRespBuffer s1);
                      s2 = trampResetReceiver s1
                  in if trampRespBuffer s2 ! 14 = cksum \<and> trampRespBuffer s2 ! 15 = 0
                     then (case trampHandleResponse f2bc s2 of (r, s3) \<Rightarrow> Inr (Some r, s3))
                     else Inr (None, s2))
               else Inr (None, s1))"

text \<open>
  The loop runs while bytes are waiting on the port. \<open>bs\<close> are the bytes waiting; each
  turn reads the first one. The result holds what ended the loop (\<open>None\<close> when no byte is
  left, \<open>Some r\<close> for the \<open>return\<close> inside), the bytes still waiting and the state.
\<close>

fun trampReceive_loop ::
    "(u32 \<Rightarrow> u8 \<times> u8 \<Rightarrow> u8 \<times> u8) \<Rightarrow> u8 list \<Rightarrow> tramp
      \<Rightarrow> error + (u8 option \<times> u8 list \<times> tramp)" where
  "trampReceive_loop f2bc [] s = Inr (None, [], s)"
| "trampReceive_loop f2bc (c # bs) s =
     (case trampReceive_byte f2bc c s of
        Inl e \<Rightarrow> Inl e
      | Inr (Some r, s') \<Rightarrow> Inr (Some r, bs, s')
      | Inr (None, s') \<Rightarrow> trampReceive_loop f2bc bs s')"

text \<open>\<open>trampReceive\<close> returns the completed response code or 0. The bytes it has not read
  stay on the port.\<close>

definition trampReceive :: "(u32 \<Rightarrow> u8 \<times> u8 \<Rightarrow> u8 \<times> u8) \<Rightarrow> tramp \<Rightarrow> error + (u8 \<times> tramp)" where
  "trampReceive f2bc s =
     (if \<not> trampSerialPort s then Inr (0, s)
      else case trampReceive_loop f2bc (serialRx s) s of
             Inl e \<Rightarrow> Inl e
           | Inr (Some r, rest, s') \<Rightarrow> Inr (r, s'\<lparr>serialRx := rest\<rparr>)
           | Inr (None, rest, s') \<Rightarrow> Inr (0, s'\<lparr>serialRx := rest\<rparr>))"

subsection \<open>Queries\<close>

definition trampQuery :: "u8 \<Rightarrow> tramp \<Rightarrow> tramp" where
  "trampQuery cmd s = trampCmdU16 cmd 0 (trampResetReceiver s)"

definition trampQueryR :: "tramp \<Rightarrow> tramp" where
  "trampQueryR s = trampQuery 114 s"

definition trampQueryV :: "tramp \<Rightarrow> tramp" where
  "trampQueryV s = trampQuery 118 s"

definition trampQueryS :: "tramp \<Rightarrow> tramp" where
  "trampQueryS s = trampQuery 115 s"

text \<open>\<open>trampInit\<close>: \<open>portConfig\<close> says whether \<open>findSerialPortConfig\<close> found a
  configuration, \<open>opened\<close> whether \<open>openSerialPort\<close> then returned a port.\<close>

definition trampInit :: "bool \<Rightarrow> bool \<Rightarrow> tramp \<Rightarrow> bool \<times> tramp" where
  "trampInit portConfig opened s =
     (let s1 = (if portConfig then s\<lparr>trampSerialPort := opened\<rparr> else s) in
      if \<not> trampSerialPort s1 then (False, s1) else (True, s1))"

subsection \<open>The periodic tick\<close>

text \<open>
  Modelled from the spec: \<open>cmp32\<close> is not defined in this file. The spec asks for time
  comparisons by wraparound-safe unsigned-difference arithmetic: the difference of the two
  32-bit times is taken modulo \<open>2 ^ 32\<close> and read as a signed number.
\<close>

definition cmp32 :: "u32 \<Rightarrow> u32 \<Rightarrow> int" where
  "cmp32 a b = sint (a - b)"

text \<open>The first \<open>switch\<close> of \<open>trampProcess\<close>, on the reply code.\<close>

definition trampProcess_reply :: "u8 \<Rightarrow> tramp \<Rightarrow> tramp" where
  "trampProcess_reply replyCode s =
     (if replyCode = 114 then
        (if status_val (trampStatus s) \<le> status_val TRAMP_STATUS_OFFLINE
         then s\<lparr>trampStatus := TRAMP_STATUS_ONLINE\<rparr> else s)
      else if replyCode = 118 then
        (if trampStatus s = TRAMP_STATUS_CHECK_FREQ_PW
         then s\<lparr>trampStatus := TRAMP_STATUS_SET_FREQ_PW\<rparr> else s)
      else s)"

text \<open>The second \<open>switch\<close>, on the status.\<close>

definition trampProcess_status :: "u32 \<Rightarrow> tramp \<Rightarrow> tramp" where
  "trampProcess_status currentTimeUs s =
     (case trampStatus s of
        TRAMP_STATUS_OFFLINE \<Rightarrow>
          if cmp32 currentTimeUs (lastQueryTimeUs s) > 1000 * 1000
          then (trampQueryR s)\<lparr>lastQueryTimeUs := currentTimeUs\<rparr> else s
      | TRAMP_STATUS_ONLINE \<Rightarrow>
          if cmp32 currentTimeUs (lastQueryTimeUs s) > 1000 * 1000
          then (trampQueryV s)\<lparr>lastQueryTimeUs := currentTimeUs\<rparr> else s
      | TRAMP_STATUS_SET_FREQ_PW \<Rightarrow>
          (let (done, s1) =
                 (if trampConfFreq s \<noteq> trampCurFreq s
                  then (False, trampSendFreq (ucast (trampConfFreq s)) s)
                  else if trampConfPower s \<noteq> trampCurConfigPower s
                  then (False, trampSendRFPower (trampConfPower s) s)
                  else (True, s))
           in if \<not> done
              then s1\<lparr>trampStatus := TRAMP_STATUS_CHECK_FREQ_PW,
                      lastQueryTimeUs := currentTimeUs + 300 * 1000\<rparr>
              else s1\<lparr>trampStatus := TRAMP_STATUS_ONLINE\<rparr>)
      | TRAMP_STATUS_CHECK_FREQ_PW \<Rightarrow>
          if cmp32 currentTimeUs (lastQueryTimeUs s) > 200 * 1000
          then (trampQueryV s)\<lparr>lastQueryTimeUs := currentTimeUs\<rparr> else s
      | TRAMP_STATUS_BAD_DEVICE \<Rightarrow> s)"

text \<open>\<open>trampProcess\<close>. The CMS status string it refreshes at the end is display state of
  the menu and is not part of the record.\<close>

definition trampProcess :: "(u32 \<Rightarrow> u8 \<times> u8 \<Rightarrow> u8 \<times> u8) \<Rightarrow> u32 \<Rightarrow> tramp \<Rightarrow> error + tramp" where
  "trampProcess f2bc currentTimeUs s =
     (if trampStatus s = TRAMP_STATUS_BAD_DEVICE then Inr s
      else case trampReceive f2bc s of
             Inl e \<Rightarrow> Inl e
           | Inr (replyCode, s1) \<Rightarrow>
               Inr (trampProcess_status currentTimeUs (trampProcess_reply replyCode s1)))"

subsection \<open>The frame layout in the words of the specification\<close>

text \<open>
  A command packet has 16 bytes: byte 0 is 15, byte 1 the command code, bytes 2 and 3 the
  16-bit parameter, low byte first, bytes 4 to 13 are zero, byte 14 is the checksum, the
  8-bit sum of bytes 1 to 13, and byte 15 is 0.
\<close>

definition CommandPacket :: "u8 \<Rightarrow> u16 \<Rightarrow> u8 list" where
  "CommandPacket code param =
     (let body = [code, ucast param, ucast (drop_bit 8 param)] @ replicate 10 0
      in [15] @ body @ [sum_list body, 0])"

subsection \<open>The receiver's invariant\<close>

text \<open>
  The response buffer has its 16 bytes, and the position counter goes with the state: 0
  while waiting for the length byte, 1 while waiting for the code, 2 to 15 inside the data.
\<close>

definition rx_inv :: "tramp \<Rightarrow> bool" where
  "rx_inv s \<longleftrightarrow>
     length (trampRespBuffer s) = 16 \<and>
     (trampReceiveState s = S_WAIT_LEN \<longrightarrow> trampReceivePos s = 0) \<and>
     (trampReceiveState s = S_WAIT_CODE \<longrightarrow> trampReceivePos s = 1) \<and>
     (trampReceiveState s = S_DATA \<longrightarrow> 2 \<le> trampReceivePos s \<and> trampReceivePos s \<le> 15)"

subsection \<open>Drivers: a sequence of calls\<close>

text \<open>Successive calls of \<open>trampReceive\<close>; before each call the fragment \<open>bs\<close> arrives
  on the port, behind whatever is still waiting there.\<close>

fun trampReceive_calls ::
    "(u32 \<Rightarrow> u8 \<times> u8 \<Rightarrow> u8 \<times> u8) \<Rightarrow> u8 list list \<Rightarrow> tramp \<Rightarrow> error + tramp" where
  "trampReceive_calls f2bc [] s = Inr s"
| "trampReceive_calls f2bc (bs # bss) s =
     (case trampReceive f2bc (s\<lparr>serialRx := serialRx s @ bs\<rparr>) of
        Inl e \<Rightarrow> Inl e
      | Inr (r, s') \<Rightarrow> trampReceive_calls f2bc bss s')"

text \<open>Successive ticks: before the tick at time \<open>t\<close> the bytes \<open>bs\<close> arrive on the port.\<close>

fun trampProcess_feed ::
    "(u32 \<Rightarrow> u8 \<times> u8 \<Rightarrow> u8 \<times> u8) \<Rightarrow> (u32 \<times> u8 list) list \<Rightarrow> tramp \<Rightarrow> error + tramp" where
  "trampProcess_feed f2bc [] s = Inr s"
| "trampProcess_feed f2bc ((t, bs) # tbs) s =
     (case trampProcess f2bc t (s\<lparr>serialRx := serialRx s @ bs\<rparr>) of
        Inl e \<Rightarrow> Inl e
      | Inr s' \<Rightarrow> trampProcess_feed f2bc tbs s')"

text \<open>Successive ticks at the given times, no byte arriving in between.\<close>

fun trampProcess_ticks ::
    "(u32 \<Rightarrow> u8 \<times> u8 \<Rightarrow> u8 \<times> u8) \<Rightarrow> u32 list \<Rightarrow> tramp \<Rightarrow> error + tramp" where
  "trampProcess_ticks f2bc [] s = Inr s"
| "trampProcess_ticks f2bc (t # ts) s =
     (case trampProcess f2bc t s of
        Inl e \<Rightarrow> Inl e
      | Inr s' \<Rightarrow> trampProcess_ticks f2bc ts s')"

text \<open>A band and channel lookup for the examples: it leaves band and channel as they are.\<close>

definition keep_bandchan :: "u32 \<Rightarrow> u8 \<times> u8 \<Rightarrow> u8 \<times> u8" where
  "keep_bandchan freq bc = bc"

subsection \<open>Reachable states\<close>

text \<open>
  The states the controller can be in. It starts with the C initialisers, \<open>trampInit\<close>
  runs once at start-up, and every further step is one of the functions of the file that
  other code may call (\<open>trampSendFreq\<close>, \<open>trampSendRFPower\<close> and \<open>trampSetPitmode\<close>
  are calls of \<open>trampCmdU16\<close>), the arrival of bytes on the port, or the status
  \<open>BAD_DEVICE\<close> set from outside (nothing in the file sets it).
\<close>

inductive reachable ::
    "(u32 \<Rightarrow> u8 \<times> u8 \<Rightarrow> u8 \<times> u8) \<Rightarrow> u16 list list \<Rightarrow> tramp \<Rightarrow> bool"
  for f2bc :: "u32 \<Rightarrow> u8 \<times> u8 \<Rightarrow> u8 \<times> u8" and vtx58FreqTable :: "u16 list list" where
  start: "reachable f2bc vtx58FreqTable tramp_init"
| init: "reachable f2bc vtx58FreqTable (snd (trampInit portConfig opened tramp_init))"
| arrive: "reachable f2bc vtx58FreqTable s \<Longrightarrow>
           reachable f2bc vtx58FreqTable (s\<lparr>serialRx := serialRx s @ bs\<rparr>)"
| bad_device: "reachable f2bc vtx58FreqTable s \<Longrightarrow>
               reachable f2bc vtx58FreqTable (s\<lparr>trampStatus := TRAMP_STATUS_BAD_DEVICE\<rparr>)"
| process: "reachable f2bc vtx58FreqTable s \<Longrightarrow> trampProcess f2bc t s = Inr s' \<Longrightarrow>
            reachable f2bc vtx58FreqTable s'"
| cmd: "reachable f2bc vtx58FreqTable s \<Longrightarrow>
        reachable f2bc vtx58FreqTable (trampCmdU16 c param s)"
| query: "reachable f2bc vtx58FreqTable s \<Longrightarrow>
          reachable f2bc vtx58FreqTable (trampQuery c s)"
| set_freq: "reachable f2bc vtx58FreqTable s \<Longrightarrow>
             reachable f2bc vtx58FreqTable (trampSetFreq freq s)"
| set_band_chan: "reachable f2bc vtx58FreqTable s \<Longrightarrow>
                  trampSetBandChan vtx58FreqTable band chan s = Inr s' \<Longrightarrow>
                  reachable f2bc vtx58FreqTable s'"
| set_power: "reachable f2bc vtx58FreqTable s \<Longrightarrow>
              reachable f2bc vtx58FreqTable (trampSetRFPower level s)"
| commit: "reachable f2bc vtx58FreqTable s \<Longrightarrow>
           reachable f2bc vtx58FreqTable (snd (trampCommitChanges s))"

text \<open>
  What holds of every reachable state: the receiver's invariant; a status of Online, SetFreqPw
  or CheckFreqPw only with a port, since only a received frame leaves Offline; and a
  desired frequency that fits 16 bits, since \<open>trampSetFreq\<close> takes a \<open>uint16_t\<close>.
\<close>

definition ctl_inv :: "tramp \<Rightarrow> bool" where
  "ctl_inv s \<longleftrightarrow>
     rx_inv s
     \<and> (trampStatus s = TRAMP_STATUS_ONLINE \<or> trampStatus s = TRAMP_STATUS_SET_FREQ_PW
          \<or> trampStatus s = TRAMP_STATUS_CHECK_FREQ_PW \<longrightarrow> trampSerialPort s)
     \<and> ucast (ucast (trampConfFreq s) :: u16) = trampConfFreq s"

text \<open>
  What holds from a tick at time \<open>t\<close> that entered CheckFreqPw, as long as the ticks are at
  most 500 ms after \<open>t\<close>: the status is CheckFreqPw or Online, and the last query time was
  set 300 ms ahead of a tick in that window.
\<close>

definition window_inv :: "u32 \<Rightarrow> tramp \<Rightarrow> bool" where
  "window_inv t s \<longleftrightarrow>
     ctl_inv s
     \<and> (trampStatus s = TRAMP_STATUS_ONLINE \<or> trampStatus s = TRAMP_STATUS_CHECK_FREQ_PW)
     \<and> unat (lastQueryTimeUs s - 300 * 1000 - t) \<le> 500000"

subsection \<open>States used in the examples\<close>

text \<open>The receiver after the first three bytes of a status frame.\<close>

definition mid_frame :: tramp where
  "mid_frame = tramp_init\<lparr>trampSerialPort := True,
       trampRespBuffer := [15, 118, 248, 0, 0, 0, 0, 0, 0, 0, 0, 0, 0, 0, 0, 0],
       trampReceiveState := S_DATA, trampReceivePos := 3\<rparr>"

text \<open>
The controller after \<open>trampInit\<close> and a capability frame with
  minimum frequency 5645, maximum frequency 5945 and maximum power 600.
\<close>

definition online_state :: tramp where
  "online_state = tramp_init\<lparr>trampSerialPort := True,
       trampRespBuffer := [15, 114, 13, 22, 57, 23, 88, 2, 0, 0, 0, 0, 0, 0, 63, 0],
       trampStatus := TRAMP_STATUS_ONLINE,
       trampRFFreqMin := 5645, trampRFFreqMax := 5945, trampRFPowerMax := 600\<rparr>"

text \<open>Then the desired frequency is set to 5880 and committed.\<close>

definition commit_state :: tramp where
  "commit_state = online_state\<lparr>trampStatus := TRAMP_STATUS_SET_FREQ_PW, trampConfFreq := 5880\<rparr>"

text \<open>The tick at time 0 has sent the set-frequency command.\<close>

definition check_state :: tramp where
  "check_state = commit_state\<lparr>trampReqBuffer := CommandPacket 70 5880,
       serialTx := [CommandPacket 70 5880],
       trampStatus := TRAMP_STATUS_CHECK_FREQ_PW, lastQueryTimeUs := 300000\<rparr>"

text \<open>As \<open>check_state\<close>, with desired power 200 and the status reply waiting on the port: it
  reports frequency 5880 and configured power 25.\<close>

definition reply_state :: tramp where
  "reply_state = check_state\<lparr>serialRx := [15, 118, 248, 22, 25, 0, 0, 0, 25, 0, 0, 0, 0, 0, 182, 0],
       trampConfPower := 200\<rparr>"

text \<open>The tick at time 100000 has read that reply and sent the set-power command.\<close>

definition resent_state :: tramp where
  "resent_state = reply_state\<lparr>serialRx := [],
       serialTx := [CommandPacket 70 5880, CommandPacket 80 200],
       trampReqBuffer := CommandPacket 80 200,
       trampRespBuffer := [15, 118, 248, 22, 25, 0, 0, 0, 25, 0, 0, 0, 0, 0, 182, 0],
       trampCurFreq := 5880, trampCurPower := 25, trampCurConfigPower := 25,
       lastQueryTimeUs := 400000\<rparr>"

section \<open>The packet codec\<close>

lemma fold_add_sum_list:
  "fold (\<lambda>i (acc::u8). acc + f i) xs a = a + sum_list (map f xs)"
  by (induction xs arbitrary: a) (simp_all add: add.assoc)

lemma trampChecksum_sum: "trampChecksum b = (\<Sum>i = 1..13. b ! i)"
proof -
  have "trampChecksum b = sum_list (map ((!) b) [1..<14])"
    by (simp add: trampChecksum_def fold_add_sum_list)
  also have "\<dots> = sum ((!) b) (set [1..<14])"
    by (rule interv_sum_list_conv_sum_set_nat)
  also have "set [1..<14] = {1..13::nat}"
    by auto
  finally show ?thesis .
qed

lemma unat_sum_u8:
  "finite A \<Longrightarrow> unat (\<Sum>i\<in>A. (f i :: u8)) = (\<Sum>i\<in>A. unat (f i)) mod 256"
  by (induction A rule: finite_induct) (simp_all add: unat_word_ariths mod_simps)

lemma trampChecksum_unat: "unat (trampChecksum b) = (\<Sum>i = 1..13. unat (b ! i)) mod 256"
  by (simp add: trampChecksum_sum unat_sum_u8)

lemma upt_1_14: "[1..<14] = [1, 2, 3, 4, 5, 6, 7, 8, 9, 10, 11, 12, 13::nat]"
  by (simp add: upt_rec)

lemma trampChecksum_unfold:
  "trampChecksum b = b ! 1 + b ! 2 + b ! 3 + b ! 4 + b ! 5 + b ! 6 + b ! 7 + b ! 8 + b ! 9
                     + b ! 10 + b ! 11 + b ! 12 + b ! 13"
  unfolding trampChecksum_def upt_1_14 by simp

lemma ff_mask: "(0xff :: u16) = mask 8"
  by (simp add: mask_eq_exp_minus_1)

lemma ucast_low: "(ucast ((param::u16) AND 0xff) :: u8) = ucast param"
  unfolding ff_mask by (rule bit_word_eqI) (auto simp add: bit_simps)

lemma ucast_high: "(ucast (drop_bit 8 (param::u16) AND 0xff) :: u8) = ucast (drop_bit 8 param)"
  unfolding ff_mask by (rule bit_word_eqI) (auto simp add: bit_simps)

lemma CommandPacket_bytes:
  "CommandPacket code param =
     [15, code, ucast param, ucast (drop_bit 8 param), 0, 0, 0, 0, 0, 0, 0, 0, 0, 0,
      code + ucast param + ucast (drop_bit 8 param), 0]"
  by (simp add: CommandPacket_def numeral_eq_Suc add.assoc)

lemma trampCmdU16_packet:
  "trampSerialPort s \<Longrightarrow>
   trampCmdU16 cmd param s =
     s\<lparr>trampReqBuffer := CommandPacket cmd param,
       serialTx := serialTx s @ [CommandPacket cmd param]\<rparr>"
  by (simp add: trampCmdU16_def trampWriteBuf_def CommandPacket_def Let_def
      trampChecksum_unfold ucast_low ucast_high numeral_eq_Suc)

lemma trampCmdU16_closed: "\<not> trampSerialPort s \<Longrightarrow> trampCmdU16 cmd param s = s"
  by (simp add: trampCmdU16_def)

lemma CommandPacket_valid:
  "length (CommandPacket code param) = 16
   \<and> CommandPacket code param ! 14 = trampChecksum (CommandPacket code param)
   \<and> CommandPacket code param ! 15 = 0"
  by (simp add: CommandPacket_bytes trampChecksum_unfold)

text \<open>
  Claim C6. With the port open, \<open>trampCmdU16\<close> writes one 16-byte frame, for every command
  code and every 16-bit parameter, and that frame passes the validity test of the receiver:
  byte 14 equals the checksum of the frame, which is the sum of bytes 1 to 13 modulo 256,
  and byte 15 equals 0.
\<close>

theorem trampCmdU16_frame_valid:
  assumes "trampSerialPort s"
  shows "\<exists>b. serialTx (trampCmdU16 cmd param s) = serialTx s @ [b]
           \<and> trampReqBuffer (trampCmdU16 cmd param s) = b
           \<and> length b = 16
           \<and> b ! 14 = trampChecksum b
           \<and> unat (b ! 14) = (\<Sum>i = 1..13. unat (b ! i)) mod 256
           \<and> b ! 15 = 0"
proof -
  let ?b = "CommandPacket cmd param"
  have "unat (?b ! 14) = (\<Sum>i = 1..13. unat (?b ! i)) mod 256"
    using CommandPacket_valid[of cmd param] by (simp add: trampChecksum_unat)
  with CommandPacket_valid[of cmd param] show ?thesis
    by (simp add: trampCmdU16_packet[OF assms])
qed

theorem trampCmdU16_frame_valid_witness:
  "trampSerialPort (tramp_init\<lparr>trampSerialPort := True\<rparr>)
   \<and> serialTx (trampCmdU16 70 5880 (tramp_init\<lparr>trampSerialPort := True\<rparr>))
       = [ [15, 70, 248, 22, 0, 0, 0, 0, 0, 0, 0, 0, 0, 0, 84, 0] ]
   \<and> (\<exists>b. serialTx (trampCmdU16 70 5880 (tramp_init\<lparr>trampSerialPort := True\<rparr>)) = [b]
          \<and> b ! 14 = trampChecksum b \<and> b ! 15 = 0)"
proof -
  have e: "serialTx (trampCmdU16 70 5880 (tramp_init\<lparr>trampSerialPort := True\<rparr>))
       = [ [15, 70, 248, 22, 0, 0, 0, 0, 0, 0, 0, 0, 0, 0, 84, 0] ]"
    by code_simp
  show ?thesis
    using trampCmdU16_frame_valid[of "tramp_init\<lparr>trampSerialPort := True\<rparr>" 70 5880] e
    by simp
qed

section \<open>Commit\<close>

text \<open>
  Claim C5. \<open>trampCommitChanges\<close> returns true exactly when the status is Online; then the
  status becomes SetFreqPw and nothing else changes. For every other status it returns false
  and the state is the one it was given.
\<close>

theorem trampCommitChanges_online_only:
  "(fst (trampCommitChanges s) \<longleftrightarrow> trampStatus s = TRAMP_STATUS_ONLINE)
   \<and> (trampStatus s = TRAMP_STATUS_ONLINE \<longrightarrow>
        snd (trampCommitChanges s) = s\<lparr>trampStatus := TRAMP_STATUS_SET_FREQ_PW\<rparr>)
   \<and> (trampStatus s \<noteq> TRAMP_STATUS_ONLINE \<longrightarrow> snd (trampCommitChanges s) = s)"
  by (simp add: trampCommitChanges_def)

theorem trampCommitChanges_online_only_witness:
  "trampCommitChanges (tramp_init\<lparr>trampStatus := TRAMP_STATUS_ONLINE\<rparr>)
     = (True, tramp_init\<lparr>trampStatus := TRAMP_STATUS_SET_FREQ_PW\<rparr>)
   \<and> trampCommitChanges tramp_init = (False, tramp_init)
   \<and> trampCommitChanges (tramp_init\<lparr>trampStatus := TRAMP_STATUS_CHECK_FREQ_PW\<rparr>)
     = (False, tramp_init\<lparr>trampStatus := TRAMP_STATUS_CHECK_FREQ_PW\<rparr>)"
  using trampCommitChanges_online_only[of "tramp_init\<lparr>trampStatus := TRAMP_STATUS_ONLINE\<rparr>"]
    trampCommitChanges_online_only[of tramp_init]
    trampCommitChanges_online_only[of "tramp_init\<lparr>trampStatus := TRAMP_STATUS_CHECK_FREQ_PW\<rparr>"]
  by (simp add: prod_eq_iff tramp_init_def)

section \<open>Pitmode\<close>

text \<open>
  Claim C9, amended. With the port open, \<open>trampSetPitmode\<close> writes exactly one frame, the
  command packet with code 'I' (73) whose parameter is 0 when \<open>onoff\<close> is nonzero and 1
  when it is zero; only the request buffer and the port's output change. With no port,
  \<open>trampCmdU16\<close> returns at once: nothing is sent and the state is the one it was given.
  In both cases status, observed state and desired configuration stay as they are.
\<close>

theorem trampSetPitmode_sends_inverse:
  "trampSetPitmode onoff s =
     (if trampSerialPort s
      then s\<lparr>trampReqBuffer := CommandPacket 73 (if onoff \<noteq> 0 then 0 else 1),
             serialTx := serialTx s @ [CommandPacket 73 (if onoff \<noteq> 0 then 0 else 1)]\<rparr>
      else s)"
  by (simp add: trampSetPitmode_def trampCmdU16_packet trampCmdU16_closed)

theorem trampSetPitmode_sends_inverse_witness:
  "serialTx (trampSetPitmode 1 (tramp_init\<lparr>trampSerialPort := True\<rparr>))
     = [ [15, 73, 0, 0, 0, 0, 0, 0, 0, 0, 0, 0, 0, 0, 73, 0] ]
   \<and> serialTx (trampSetPitmode 0 (tramp_init\<lparr>trampSerialPort := True\<rparr>))
     = [ [15, 73, 1, 0, 0, 0, 0, 0, 0, 0, 0, 0, 0, 0, 74, 0] ]
   \<and> trampSetPitmode 1 tramp_init = tramp_init"
proof -
  have e: "CommandPacket 73 0 = [15, 73, 0, 0, 0, 0, 0, 0, 0, 0, 0, 0, 0, 0, 73, 0]"
    "CommandPacket 73 1 = [15, 73, 1, 0, 0, 0, 0, 0, 0, 0, 0, 0, 0, 0, 74, 0]"
    by code_simp+
  show ?thesis
    using trampSetPitmode_sends_inverse[of 1 "tramp_init\<lparr>trampSerialPort := True\<rparr>"]
      trampSetPitmode_sends_inverse[of 0 "tramp_init\<lparr>trampSerialPort := True\<rparr>"]
      trampSetPitmode_sends_inverse[of 1 tramp_init]
    by (simp add: e tramp_init_def)
qed

text \<open>
  The claim as first stated fails when no port was opened: \<open>trampInit\<close> finds a
  configuration but \<open>openSerialPort\<close> returns no port, and \<open>trampSetPitmode\<close> then
  sends nothing.
\<close>

theorem trampSetPitmode_without_port:
  "fst (trampInit True False tramp_init) = False
   \<and> \<not> trampSerialPort (snd (trampInit True False tramp_init))
   \<and> serialTx (trampSetPitmode 1 (snd (trampInit True False tramp_init))) = []
   \<and> trampSetPitmode 1 (snd (trampInit True False tramp_init))
       = snd (trampInit True False tramp_init)"
  by (simp add: trampInit_def trampSetPitmode_def trampCmdU16_def tramp_init_def)

section \<open>Band and channel\<close>

lemma trampSetBandChan_cases:
  assumes "length tbl = 5" and "\<forall>row \<in> set tbl. length row = 8"
  shows "trampSetBandChan tbl band chan s =
           (if 1 \<le> band \<and> band \<le> 5 \<and> 1 \<le> chan \<and> chan \<le> 8
            then Inr (trampSetFreq (tbl ! (unat band - 1) ! (unat chan - 1)) s)
            else Inl OutOfBounds)"
proof -
  have b: "1 \<le> band \<and> band \<le> 5 \<longleftrightarrow> 0 \<le> uint band - 1 \<and> uint band - 1 < 5"
    by (simp add: word_le_def) arith
  have c: "1 \<le> chan \<and> chan \<le> 8 \<longleftrightarrow> 0 \<le> uint chan - 1 \<and> uint chan - 1 < 8"
    by (simp add: word_le_def) arith
  have n: "nat (uint band - 1) = unat band - 1" "nat (uint chan - 1) = unat chan - 1"
    by (simp_all add: nat_diff_distrib')
  show ?thesis
  proof (cases "1 \<le> band \<and> band \<le> 5 \<and> 1 \<le> chan \<and> chan \<le> 8")
    case True
    then have i: "0 \<le> uint band - 1" "uint band - 1 < 5" "0 \<le> uint chan - 1" "uint chan - 1 < 8"
      using b c by simp_all
    then have "nat (uint band - 1) < length tbl"
      using assms(1) by simp
    then have "tbl ! nat (uint band - 1) \<in> set tbl"
      by (rule nth_mem)
    then have "length (tbl ! nat (uint band - 1)) = 8"
      using assms(2) by blast
    with True i assms(1) show ?thesis
      by (simp add: trampSetBandChan_def Let_def n)
  next
    case False
    then have "\<not> (0 \<le> uint band - 1 \<and> uint band - 1 < 5) \<or> \<not> (0 \<le> uint chan - 1 \<and> uint chan - 1 < 8)"
      using b c by blast
    moreover have "0 \<le> uint band - 1 \<Longrightarrow> uint band - 1 < 5 \<Longrightarrow> length (tbl ! nat (uint band - 1)) = 8"
      using assms by simp
    ultimately show ?thesis
      using False assms(1) by (auto simp add: trampSetBandChan_def Let_def)
  qed
qed

text \<open>
  Claim C10. \<open>trampSetBandChan\<close> reads the table at row \<open>band - 1\<close> and column
  \<open>chan - 1\<close> without a check of its own. For a table of 5 rows of 8 entries and
  \<open>1 \<le> band \<le> 5\<close>, \<open>1 \<le> chan \<le> 8\<close>, both indices are inside the table and the
  entry becomes the desired frequency; for \<open>band = 0\<close> or \<open>chan = 0\<close> the index is -1,
  outside the table.
\<close>

theorem trampSetBandChan_index:
  assumes "length tbl = 5" and "\<forall>row \<in> set tbl. length row = 8"
  shows "(1 \<le> band \<and> band \<le> 5 \<and> 1 \<le> chan \<and> chan \<le> 8 \<longrightarrow>
            unat band - 1 < length tbl
            \<and> unat chan - 1 < length (tbl ! (unat band - 1))
            \<and> trampSetBandChan tbl band chan s
                = Inr (s\<lparr>trampConfFreq := ucast (tbl ! (unat band - 1) ! (unat chan - 1))\<rparr>))
       \<and> (band = 0 \<or> chan = 0 \<longrightarrow>
            (uint band - 1 = -1 \<or> uint chan - 1 = -1)
            \<and> trampSetBandChan tbl band chan s = Inl OutOfBounds)"
proof (intro conjI impI)
  assume h: "1 \<le> band \<and> band \<le> 5 \<and> 1 \<le> chan \<and> chan \<le> 8"
  then have "unat band \<le> 5"
    by (simp add: word_le_nat_alt)
  then show r: "unat band - 1 < length tbl"
    using h assms(1) by (simp add: word_le_nat_alt)
  then have "tbl ! (unat band - 1) \<in> set tbl"
    by (rule nth_mem)
  then have "length (tbl ! (unat band - 1)) = 8"
    using assms(2) by blast
  moreover have "1 \<le> unat chan" "unat chan \<le> 8"
    using h by (simp_all add: word_le_nat_alt)
  ultimately show "unat chan - 1 < length (tbl ! (unat band - 1))"
    by arith
  show "trampSetBandChan tbl band chan s
          = Inr (s\<lparr>trampConfFreq := ucast (tbl ! (unat band - 1) ! (unat chan - 1))\<rparr>)"
    using h by (simp add: trampSetBandChan_cases[OF assms] trampSetFreq_def)
next
  assume z: "band = 0 \<or> chan = 0"
  then show "uint band - 1 = -1 \<or> uint chan - 1 = -1"
    by auto
  from z have "\<not> (1 \<le> band \<and> band \<le> 5 \<and> 1 \<le> chan \<and> chan \<le> 8)"
    by auto
  then show "trampSetBandChan tbl band chan s = Inl OutOfBounds"
    by (simp add: trampSetBandChan_cases[OF assms])
qed

theorem trampSetBandChan_index_witness:
  "trampSetBandChan (replicate 5 [5740, 5760, 5780, 5800, 5820, 5840, 5860, 5880]) 4 8 tramp_init
     = Inr (tramp_init\<lparr>trampConfFreq := 5880\<rparr>)
   \<and> trampSetBandChan (replicate 5 [5740, 5760, 5780, 5800, 5820, 5840, 5860, 5880]) 0 8 tramp_init
     = Inl OutOfBounds
   \<and> trampSetBandChan (replicate 5 [5740, 5760, 5780, 5800, 5820, 5840, 5860, 5880]) 4 0 tramp_init
     = Inl OutOfBounds"
proof -
  let ?tbl = "replicate 5 [5740, 5760, 5780, 5800, 5820, 5840, 5860, 5880 :: u16]"
  have l: "length ?tbl = 5" and r: "\<forall>row \<in> set ?tbl. length row = 8"
    by simp_all
  have e: "?tbl ! (unat (4::u8) - 1) ! (unat (8::u8) - 1) = 5880"
    by code_simp
  show ?thesis
    using trampSetBandChan_index[OF l r, of 4 8 tramp_init]
      trampSetBandChan_index[OF l r, of 0 8 tramp_init]
      trampSetBandChan_index[OF l r, of 4 0 tramp_init] e
    by simp
qed

section \<open>The response interpreter\<close>

lemma le16_plus: "le16 lo hi = ucast lo + push_bit 8 (ucast hi)"
  unfolding le16_def
  by (rule disjunctive_add_eq_or[symmetric])
     (auto simp add: bit_eq_iff bit_simps dest: bit_imp_le_length)

text \<open>\<open>le16\<close> is the little-endian value of the two bytes.\<close>

lemma le16_unat: "unat (le16 lo hi) = unat lo + 256 * unat hi"
proof -
  have blo: "unat lo < 256" and bhi: "unat hi < 256"
    using unsigned_less[of lo, where ?'a=nat] unsigned_less[of hi, where ?'a=nat] by simp_all
  have lo: "unat (ucast lo :: u16) = unat lo" and hi: "unat (ucast hi :: u16) = unat hi"
    using blo bhi by (simp_all add: unsigned_ucast_eq take_bit_nat_eq_self)
  have "unat (le16 lo hi) = (unat lo + unat hi * 256 mod 65536) mod 65536"
    by (simp add: le16_plus push_bit_eq_mult unat_word_ariths lo hi)
  also have "\<dots> = unat lo + 256 * unat hi"
    using blo bhi by simp
  finally show ?thesis .
qed

lemma le16_zero: "le16 lo hi = 0 \<longleftrightarrow> unat lo + 256 * unat hi = 0"
proof -
  have "le16 lo hi = 0 \<longleftrightarrow> unat (le16 lo hi) = 0"
    by (simp add: unat_eq_0)
  then show ?thesis by (simp only: le16_unat)
qed

text \<open>
  Claim C7. When the response buffer holds a frame with code 'v' (118) or 'r' (114) whose
  first field, bytes 2 and 3 read little-endian, is 0, \<open>trampHandleResponse\<close> returns 0,
  no event, and the state it returns is the state it was given: no observed value and no
  capability limit changes.
\<close>

theorem trampHandleResponse_zero_field:
  assumes "trampRespBuffer s ! 1 = 118 \<or> trampRespBuffer s ! 1 = 114"
    and "unat (trampRespBuffer s ! 2) + 256 * unat (trampRespBuffer s ! 3) = 0"
  shows "trampHandleResponse f2bc s = (0, s)"
proof -
  have "le16 (trampRespBuffer s ! 2) (trampRespBuffer s ! 3) = 0"
    using assms(2) by (simp only: le16_zero)
  with assms(1) show ?thesis
    by (auto simp add: trampHandleResponse_def Let_def)
qed

theorem trampHandleResponse_zero_field_witness:
  "trampHandleResponse keep_bandchan
     (tramp_init\<lparr>trampRespBuffer := [15, 118, 0, 0, 25, 0, 0, 1, 25, 0, 0, 0, 0, 0, 169, 0]\<rparr>)
   = (0, tramp_init\<lparr>trampRespBuffer := [15, 118, 0, 0, 25, 0, 0, 1, 25, 0, 0, 0, 0, 0, 169, 0]\<rparr>)
   \<and> trampHandleResponse keep_bandchan
     (tramp_init\<lparr>trampRespBuffer := [15, 114, 0, 0, 100, 23, 88, 2, 0, 0, 0, 0, 0, 0, 71, 0]\<rparr>)
   = (0, tramp_init\<lparr>trampRespBuffer := [15, 114, 0, 0, 100, 23, 88, 2, 0, 0, 0, 0, 0, 0, 71, 0]\<rparr>)"
  using trampHandleResponse_zero_field[of
      "tramp_init\<lparr>trampRespBuffer := [15, 118, 0, 0, 25, 0, 0, 1, 25, 0, 0, 0, 0, 0, 169, 0]\<rparr>"
      keep_bandchan]
    trampHandleResponse_zero_field[of
      "tramp_init\<lparr>trampRespBuffer := [15, 114, 0, 0, 100, 23, 88, 2, 0, 0, 0, 0, 0, 0, 71, 0]\<rparr>"
      keep_bandchan]
  by simp

section \<open>Which commands reset the receiver\<close>

lemma trampCmdU16_receiver:
  "trampReceiveState (trampCmdU16 cmd param s) = trampReceiveState s
   \<and> trampReceivePos (trampCmdU16 cmd param s) = trampReceivePos s
   \<and> trampRespBuffer (trampCmdU16 cmd param s) = trampRespBuffer s"
  by (cases "trampSerialPort s") (simp_all add: trampCmdU16_packet trampCmdU16_closed)

text \<open>
  Claim C1, amended. The queries reset the receiver: after \<open>trampQuery\<close>, and so after
  \<open>trampQueryR\<close>, \<open>trampQueryV\<close> and \<open>trampQueryS\<close>, the receive state is
  \<open>S_WAIT_LEN\<close> and the position is 0. The other commands do not: \<open>trampSendFreq\<close>
  ('F'), \<open>trampSendRFPower\<close> ('P') and \<open>trampSetPitmode\<close> ('I') leave the receive state
  and the position as they were.
\<close>

theorem only_queries_reset_receiver:
  "trampReceiveState (trampQuery cmd s) = S_WAIT_LEN \<and> trampReceivePos (trampQuery cmd s) = 0
   \<and> trampReceiveState (trampQueryR s) = S_WAIT_LEN \<and> trampReceivePos (trampQueryR s) = 0
   \<and> trampReceiveState (trampQueryV s) = S_WAIT_LEN \<and> trampReceivePos (trampQueryV s) = 0
   \<and> trampReceiveState (trampQueryS s) = S_WAIT_LEN \<and> trampReceivePos (trampQueryS s) = 0
   \<and> trampReceiveState (trampSendFreq freq s) = trampReceiveState s
   \<and> trampReceivePos (trampSendFreq freq s) = trampReceivePos s
   \<and> trampReceiveState (trampSendRFPower level s) = trampReceiveState s
   \<and> trampReceivePos (trampSendRFPower level s) = trampReceivePos s
   \<and> trampReceiveState (trampSetPitmode onoff s) = trampReceiveState s
   \<and> trampReceivePos (trampSetPitmode onoff s) = trampReceivePos s"
  by (simp add: trampQueryR_def trampQueryV_def trampQueryS_def trampQuery_def
      trampSendFreq_def trampSendRFPower_def trampSetPitmode_def
      trampCmdU16_receiver trampResetReceiver_def)

text \<open>
  The claim as first stated fails for the set-frequency command: three bytes of a status
  frame have arrived, the receiver is in \<open>S_DATA\<close> at position 3, and it still is after
  \<open>trampSendFreq\<close> has written its frame.
\<close>

theorem trampSendFreq_keeps_partial_frame:
  "trampReceive keep_bandchan (tramp_init\<lparr>trampSerialPort := True, serialRx := [15, 118, 248]\<rparr>)
     = Inr (0, mid_frame)
   \<and> serialTx (trampSendFreq 5880 mid_frame) = [CommandPacket 70 5880]
   \<and> trampReceiveState (trampSendFreq 5880 mid_frame) = S_DATA
   \<and> trampReceivePos (trampSendFreq 5880 mid_frame) = 3
   \<and> \<not> (trampReceiveState (trampSendFreq 5880 mid_frame) = S_WAIT_LEN
          \<and> trampReceivePos (trampSendFreq 5880 mid_frame) = 0)"
  by code_simp

section \<open>The frame receiver\<close>

lemma rx_inv_pos: "rx_inv s \<Longrightarrow> 0 \<le> trampReceivePos s \<and> trampReceivePos s \<le> 15"
  by (cases "trampReceiveState s") (auto simp: rx_inv_def)

lemma rx_inv_init: "rx_inv tramp_init"
  by (simp add: rx_inv_def tramp_init_def)

lemma rx_inv_cong:
  "trampRespBuffer s' = trampRespBuffer s \<Longrightarrow> trampReceiveState s' = trampReceiveState s \<Longrightarrow>
   trampReceivePos s' = trampReceivePos s \<Longrightarrow> rx_inv s' = rx_inv s"
  by (simp add: rx_inv_def)

text \<open>What \<open>trampHandleResponse\<close> leaves alone.\<close>

lemma trampHandleResponse_frame:
  assumes "trampHandleResponse f s = (r, s')"
  shows "trampSerialPort s' = trampSerialPort s \<and> serialRx s' = serialRx s
    \<and> serialTx s' = serialTx s \<and> trampReqBuffer s' = trampReqBuffer s
    \<and> trampRespBuffer s' = trampRespBuffer s \<and> trampStatus s' = trampStatus s
    \<and> trampConfFreq s' = trampConfFreq s \<and> trampConfPower s' = trampConfPower s
    \<and> trampReceiveState s' = trampReceiveState s \<and> trampReceivePos s' = trampReceivePos s
    \<and> lastQueryTimeUs s' = lastQueryTimeUs s"
  using assms by (auto simp: trampHandleResponse_def Let_def split: if_splits)

lemma trampHandleResponse_inv:
  "trampHandleResponse f s = (r, s') \<Longrightarrow> rx_inv s' = rx_inv s"
  by (rule rx_inv_cong) (simp_all add: trampHandleResponse_frame)

lemma trampResetReceiver_inv:
  "length (trampRespBuffer s) = 16 \<Longrightarrow> rx_inv (trampResetReceiver s)"
  by (simp add: rx_inv_def trampResetReceiver_def)

lemma trampReceive_byte_frame:
  assumes "trampReceive_byte f c s = Inr (r, s')"
  shows "trampSerialPort s' = trampSerialPort s \<and> serialRx s' = serialRx s
    \<and> serialTx s' = serialTx s \<and> trampReqBuffer s' = trampReqBuffer s
    \<and> trampStatus s' = trampStatus s
    \<and> trampConfFreq s' = trampConfFreq s \<and> trampConfPower s' = trampConfPower s
    \<and> lastQueryTimeUs s' = lastQueryTimeUs s"
  using assms
  by (auto simp: trampReceive_byte_def trampResetReceiver_def Let_def
      split: if_splits trampReceiveState_e.splits prod.splits
      dest!: trampHandleResponse_frame)

lemma trampReceive_byte_inv:
  assumes "rx_inv s"
  shows "\<exists>r s'. trampReceive_byte f c s = Inr (r, s') \<and> rx_inv s'"
proof -
  from assms have len: "length (trampRespBuffer s) = 16"
    by (simp add: rx_inv_def)
  show ?thesis
  proof (cases "trampReceiveState s")
    case S_WAIT_LEN
    with assms show ?thesis
      by (simp add: trampReceive_byte_def rx_inv_def Let_def)
  next
    case S_WAIT_CODE
    with assms show ?thesis
      by (simp add: trampReceive_byte_def rx_inv_def trampResetReceiver_def Let_def)
  next
    case S_DATA
    show ?thesis
    proof (cases "trampReceivePos s = 15")
      case False
      with S_DATA assms show ?thesis
        by (simp add: trampReceive_byte_def rx_inv_def Let_def)
    next
      case True
      let ?s2 = "trampResetReceiver
                   (s\<lparr>trampRespBuffer := (trampRespBuffer s)[nat (trampReceivePos s) := c],
                      trampReceivePos := trampReceivePos s + 1\<rparr>)"
      have inv2: "rx_inv ?s2"
        by (rule trampResetReceiver_inv) (simp add: len)
      obtain r s3 where h: "trampHandleResponse f ?s2 = (r, s3)"
        by (cases "trampHandleResponse f ?s2")
      then have "rx_inv s3"
        using inv2 by (simp add: trampHandleResponse_inv)
      with h inv2 True S_DATA show ?thesis
        by (simp add: trampReceive_byte_def Let_def)
    qed
  qed
qed

text \<open>The \<open>return\<close> inside the loop happens only on a frame that passed the checksum and
  terminator test, with the receiver reset.\<close>

lemma trampReceive_byte_Some:
  assumes "trampReceive_byte f c s = Inr (Some r, s')"
  shows "trampReceiveState s' = S_WAIT_LEN \<and> trampReceivePos s' = 0
         \<and> trampRespBuffer s' ! 14 = trampChecksum (trampRespBuffer s')
         \<and> trampRespBuffer s' ! 15 = 0"
  using assms
  by (auto simp: trampReceive_byte_def trampResetReceiver_def Let_def
      split: if_splits trampReceiveState_e.splits prod.splits
      dest!: trampHandleResponse_frame)

lemma trampReceive_loop_frame:
  assumes "trampReceive_loop f bs s = Inr (r, rest, s')"
  shows "trampSerialPort s' = trampSerialPort s \<and> serialRx s' = serialRx s
       \<and> serialTx s' = serialTx s
       \<and> trampReqBuffer s' = trampReqBuffer s \<and> trampStatus s' = trampStatus s
       \<and> trampConfFreq s' = trampConfFreq s \<and> trampConfPower s' = trampConfPower s
       \<and> lastQueryTimeUs s' = lastQueryTimeUs s"
  using assms
proof (induction bs arbitrary: s)
  case Nil
  then show ?case by auto
next
  case (Cons c bs)
  from Cons.prems obtain r1 s1 where b: "trampReceive_byte f c s = Inr (r1, s1)"
    by (auto split: sum.splits)
  note fr = trampReceive_byte_frame[OF b]
  show ?case
  proof (cases r1)
    case None
    with b Cons.prems have "trampReceive_loop f bs s1 = Inr (r, rest, s')" by simp
    from Cons.IH[OF this] fr show ?thesis by simp
  next
    case (Some x)
    with b Cons.prems have "s' = s1" by simp
    with fr show ?thesis by simp
  qed
qed

lemma trampReceive_loop_inv:
  assumes "rx_inv s"
  shows "\<exists>r rest s'. trampReceive_loop f bs s = Inr (r, rest, s') \<and> rx_inv s'
           \<and> (\<exists>used. bs = used @ rest)
           \<and> (r = None \<longrightarrow> rest = [])
           \<and> (r \<noteq> None \<longrightarrow> trampReceiveState s' = S_WAIT_LEN \<and> trampReceivePos s' = 0
                  \<and> trampRespBuffer s' ! 14 = trampChecksum (trampRespBuffer s')
                  \<and> trampRespBuffer s' ! 15 = 0)"
  using assms
proof (induction bs arbitrary: s)
  case Nil
  then show ?case by simp
next
  case (Cons c bs)
  from trampReceive_byte_inv[OF Cons.prems, of f c]
  obtain r1 s1 where b: "trampReceive_byte f c s = Inr (r1, s1)" and i1: "rx_inv s1"
    by blast
  show ?case
  proof (cases r1)
    case None
    from Cons.IH[OF i1] obtain r rest s' used where
      l: "trampReceive_loop f bs s1 = Inr (r, rest, s')" "rx_inv s'" "bs = used @ rest"
         "r = None \<longrightarrow> rest = []"
         "r \<noteq> None \<longrightarrow> trampReceiveState s' = S_WAIT_LEN \<and> trampReceivePos s' = 0
                  \<and> trampRespBuffer s' ! 14 = trampChecksum (trampRespBuffer s')
                  \<and> trampRespBuffer s' ! 15 = 0"
      by blast
    have "c # bs = (c # used) @ rest"
      using l(3) by simp
    then have "\<exists>u. c # bs = u @ rest" ..
    with b None l show ?thesis by simp
  next
    case (Some r)
    have b': "trampReceive_byte f c s = Inr (Some r, s1)"
      using b Some by simp
    from trampReceive_byte_Some[OF b']
    have v: "trampReceiveState s1 = S_WAIT_LEN \<and> trampReceivePos s1 = 0
         \<and> trampRespBuffer s1 ! 14 = trampChecksum (trampRespBuffer s1)
         \<and> trampRespBuffer s1 ! 15 = 0" .
    have "\<exists>u. c # bs = u @ bs"
      by (rule exI[of _ "[c]"]) simp
    then show ?thesis
      using b Some v i1 by simp
  qed
qed

text \<open>Cutting the stream: the loop on \<open>xs @ ys\<close> is the loop on \<open>xs\<close>, followed by the loop
  on \<open>ys\<close> from the state reached when \<open>xs\<close> ran dry.\<close>

lemma trampReceive_loop_append:
  "trampReceive_loop f (xs @ ys) s =
     (case trampReceive_loop f xs s of
        Inl e \<Rightarrow> Inl e
      | Inr (None, rest, s1) \<Rightarrow> trampReceive_loop f ys s1
      | Inr (Some r, rest, s1) \<Rightarrow> Inr (Some r, rest @ ys, s1))"
proof (induction xs arbitrary: s)
  case Nil
  show ?case by simp
next
  case (Cons c xs)
  then show ?case
    by (simp split: sum.splits prod.splits option.splits)
qed

text \<open>The bytes waiting on the port are not looked at by the loop body.\<close>

lemma trampHandleResponse_serialRx:
  "trampHandleResponse f (s\<lparr>serialRx := q\<rparr>) =
     (case trampHandleResponse f s of (r, s') \<Rightarrow> (r, s'\<lparr>serialRx := q\<rparr>))"
  by (simp add: trampHandleResponse_def Let_def)

lemma trampReceive_byte_serialRx:
  "trampReceive_byte f c (s\<lparr>serialRx := q\<rparr>) =
     (case trampReceive_byte f c s of
        Inl e \<Rightarrow> Inl e
      | Inr (r, s') \<Rightarrow> Inr (r, s'\<lparr>serialRx := q\<rparr>))"
proof (cases "trampReceiveState s = S_DATA \<and> trampReceivePos s = 15")
  case False
  then show ?thesis
    by (cases "trampReceiveState s")
       (auto simp add: trampReceive_byte_def trampResetReceiver_def Let_def)
next
  case True
  define t where
    "t = s\<lparr>trampRespBuffer := (trampRespBuffer s)[15 := c],
            trampReceiveState := S_WAIT_LEN, trampReceivePos := 0\<rparr>"
  have b: "trampReceive_byte f c s =
             (if trampRespBuffer t ! 14 = trampChecksum (trampRespBuffer t)
                 \<and> trampRespBuffer t ! 15 = 0
              then (case trampHandleResponse f t of (r, s3) \<Rightarrow> Inr (Some r, s3))
              else Inr (None, t))"
    using True by (simp add: trampReceive_byte_def Let_def t_def trampResetReceiver_def)
  have b': "trampReceive_byte f c (s\<lparr>serialRx := q\<rparr>) =
             (if trampRespBuffer t ! 14 = trampChecksum (trampRespBuffer t)
                 \<and> trampRespBuffer t ! 15 = 0
              then (case trampHandleResponse f (t\<lparr>serialRx := q\<rparr>) of
                      (r, s3) \<Rightarrow> Inr (Some r, s3))
              else Inr (None, t\<lparr>serialRx := q\<rparr>))"
  proof -
    have eq: "s\<lparr>serialRx := q, trampRespBuffer := (trampRespBuffer s)[15 := c],
                 trampReceiveState := S_WAIT_LEN, trampReceivePos := 0\<rparr> = t\<lparr>serialRx := q\<rparr>"
      by (cases s) (simp add: t_def)
    have sel: "trampRespBuffer (t\<lparr>serialRx := q\<rparr>) = trampRespBuffer t"
      by simp
    show ?thesis
      using True
      by (simp add: trampReceive_byte_def Let_def trampResetReceiver_def eq sel)
         (simp add: t_def)
  qed
  show ?thesis
    unfolding b b' by (simp add: trampHandleResponse_serialRx split: prod.splits)
qed

lemma trampReceive_loop_serialRx:
  "trampReceive_loop f bs (s\<lparr>serialRx := q\<rparr>) =
     (case trampReceive_loop f bs s of
        Inl e \<Rightarrow> Inl e
      | Inr (r, rest, s') \<Rightarrow> Inr (r, rest, s'\<lparr>serialRx := q\<rparr>))"
proof (induction bs arbitrary: s)
  case Nil
  show ?case by simp
next
  case (Cons c bs)
  show ?case
    by (simp add: trampReceive_byte_serialRx Cons.IH split: sum.splits prod.splits option.splits)
qed

lemma trampReceive_total:
  assumes "rx_inv s"
  shows "\<exists>r s'. trampReceive f s = Inr (r, s') \<and> rx_inv s'
           \<and> (\<exists>used. serialRx s = used @ serialRx s')
           \<and> (trampSerialPort s \<and> serialRx s' \<noteq> [] \<longrightarrow>
                 trampReceiveState s' = S_WAIT_LEN \<and> trampReceivePos s' = 0
                 \<and> trampRespBuffer s' ! 14 = trampChecksum (trampRespBuffer s')
                 \<and> trampRespBuffer s' ! 15 = 0)
           \<and> trampSerialPort s' = trampSerialPort s \<and> serialTx s' = serialTx s
           \<and> trampReqBuffer s' = trampReqBuffer s \<and> trampStatus s' = trampStatus s
           \<and> trampConfFreq s' = trampConfFreq s \<and> trampConfPower s' = trampConfPower s
           \<and> lastQueryTimeUs s' = lastQueryTimeUs s"
proof (cases "trampSerialPort s")
  case False
  with assms show ?thesis by (simp add: trampReceive_def)
next
  case True
  from trampReceive_loop_inv[OF assms, of f "serialRx s"]
  obtain r rest s1 used where
    l: "trampReceive_loop f (serialRx s) s = Inr (r, rest, s1)" "rx_inv s1"
       "serialRx s = used @ rest" "r = None \<longrightarrow> rest = []"
       "r \<noteq> None \<longrightarrow> trampReceiveState s1 = S_WAIT_LEN \<and> trampReceivePos s1 = 0
                  \<and> trampRespBuffer s1 ! 14 = trampChecksum (trampRespBuffer s1)
                  \<and> trampRespBuffer s1 ! 15 = 0"
    by blast
  note fr = trampReceive_loop_frame[OF l(1)]
  have i: "rx_inv (s1\<lparr>serialRx := rest\<rparr>)"
    using l(2) by (simp add: rx_inv_def)
  have u: "\<exists>u. serialRx s = u @ rest"
    using l(3) by blast
  show ?thesis
  proof (cases r)
    case None
    with True l fr i show ?thesis
      by (simp add: trampReceive_def)
  next
    case (Some x)
    with True l fr i u show ?thesis
      by (simp add: trampReceive_def)
  qed
qed

lemma trampReceive_idle:
  "serialRx s = [] \<Longrightarrow> trampReceive f s = Inr (0, s)"
  by (simp add: trampReceive_def)

lemma trampReceive_calls_inv:
  "rx_inv s \<Longrightarrow> \<exists>s'. trampReceive_calls f bss s = Inr s' \<and> rx_inv s'"
proof (induction bss arbitrary: s)
  case Nil
  then show ?case by simp
next
  case (Cons bs bss)
  have "rx_inv (s\<lparr>serialRx := serialRx s @ bs\<rparr>)"
    using Cons.prems by (simp add: rx_inv_def)
  from trampReceive_total[OF this, of f]
  obtain r s1 where "trampReceive f (s\<lparr>serialRx := serialRx s @ bs\<rparr>) = Inr (r, s1)" "rx_inv s1"
    by blast
  with Cons.IH[of s1] show ?case by simp
qed

text \<open>
  Claim C8. The receiver's invariant holds in the initial state and after
  \<open>trampResetReceiver\<close>. In a state that satisfies it the position counter is between 0
  and 15 when the next byte is stored, so the store is inside the 16-byte buffer and the
  counter is at most 16 after its increment; the byte is processed without
  \<open>OutOfBounds\<close> and the invariant holds again. So any sequence of calls of
  \<open>trampReceive\<close>, whatever fragments arrive before each call, runs without
  \<open>OutOfBounds\<close> and ends in a state that satisfies the invariant.
\<close>

theorem receiver_stores_in_bounds:
  assumes "rx_inv s"
  shows "rx_inv tramp_init \<and> rx_inv (trampResetReceiver s)
       \<and> 0 \<le> trampReceivePos s \<and> trampReceivePos s \<le> 15 \<and> trampReceivePos s + 1 \<le> 16
       \<and> (\<exists>r s'. trampReceive_byte f c s = Inr (r, s') \<and> rx_inv s')
       \<and> (\<exists>s'. trampReceive_calls f bss s = Inr s' \<and> rx_inv s')"
proof -
  have "length (trampRespBuffer s) = 16"
    using assms by (simp add: rx_inv_def)
  then have "rx_inv (trampResetReceiver s)"
    by (rule trampResetReceiver_inv)
  then show ?thesis
    using rx_inv_init rx_inv_pos[OF assms] trampReceive_byte_inv[OF assms, of f c]
      trampReceive_calls_inv[OF assms, of f bss]
    by simp
qed

theorem receiver_stores_in_bounds_witness:
  "rx_inv (tramp_init\<lparr>trampSerialPort := True\<rparr>)
   \<and> (\<exists>s'. trampReceive_calls keep_bandchan
              [ [7, 15, 118, 248], [22, 25, 0, 0, 0, 25, 0, 0, 0, 0, 0, 182, 0, 15, 115] ]
              (tramp_init\<lparr>trampSerialPort := True\<rparr>) = Inr s'
            \<and> rx_inv s')"
  using receiver_stores_in_bounds[of "tramp_init\<lparr>trampSerialPort := True\<rparr>" keep_bandchan 0
      "[ [7, 15, 118, 248], [22, 25, 0, 0, 0, 25, 0, 0, 0, 0, 0, 182, 0, 15, 115] ]"]
  by (simp add: rx_inv_def tramp_init_def)

lemma trampChecksum_update_high:
  "14 \<le> i \<Longrightarrow> trampChecksum (b[i := x]) = trampChecksum b"
  by (simp add: trampChecksum_unfold)

text \<open>The byte that ends a frame: in \<open>S_DATA\<close> at position 15. The frame is accepted when the
  byte is the terminator 0 and byte 14 is the checksum.\<close>

lemma trampReceive_byte_last:
  assumes "rx_inv s" and "trampReceiveState s = S_DATA" and "trampReceivePos s = 15"
  shows "trampReceive_byte f c s =
           (if c = 0 \<and> trampRespBuffer s ! 14 = trampChecksum (trampRespBuffer s)
            then (case trampHandleResponse f
                         (s\<lparr>trampRespBuffer := (trampRespBuffer s)[15 := c],
                            trampReceiveState := S_WAIT_LEN, trampReceivePos := 0\<rparr>) of
                    (r, s3) \<Rightarrow> Inr (Some r, s3))
            else Inr (None, s\<lparr>trampRespBuffer := (trampRespBuffer s)[15 := c],
                              trampReceiveState := S_WAIT_LEN, trampReceivePos := 0\<rparr>))"
proof -
  have len: "length (trampRespBuffer s) = 16"
    using assms(1) by (simp add: rx_inv_def)
  show ?thesis
    using assms(2,3) len
    by (auto simp add: trampReceive_byte_def Let_def trampResetReceiver_def
        trampChecksum_update_high)
qed

lemma trampReceive_byte_not_last:
  assumes "rx_inv s" and "\<not> (trampReceiveState s = S_DATA \<and> trampReceivePos s = 15)"
  shows "\<exists>s'. trampReceive_byte f c s = Inr (None, s')"
  using assms
  by (cases "trampReceiveState s")
     (auto simp add: trampReceive_byte_def Let_def trampResetReceiver_def rx_inv_def)

lemma trampReceive_byte_Some_iff:
  assumes "rx_inv s"
  shows "(\<exists>r s'. trampReceive_byte f c s = Inr (Some r, s'))
         \<longleftrightarrow> trampReceiveState s = S_DATA \<and> trampReceivePos s = 15 \<and> c = 0
             \<and> trampRespBuffer s ! 14 = trampChecksum (trampRespBuffer s)"
proof (cases "trampReceiveState s = S_DATA \<and> trampReceivePos s = 15")
  case True
  then show ?thesis
    using trampReceive_byte_last[OF assms, of f c]
    by (auto split: prod.splits)
next
  case False
  with trampReceive_byte_not_last[OF assms False, of f c] show ?thesis
    by auto
qed

text \<open>One turn of the loop, seen from \<open>trampReceive\<close>.\<close>

lemma trampReceive_return:
  assumes "trampSerialPort s" and "serialRx s = c # bs"
    and "trampReceive_byte f c s = Inr (Some r, s')"
  shows "trampReceive f s = Inr (r, s'\<lparr>serialRx := bs\<rparr>)"
  using assms by (simp add: trampReceive_def)

lemma trampReceive_continue:
  assumes "trampSerialPort s" and "serialRx s = c # bs"
    and "trampReceive_byte f c s = Inr (None, s')"
  shows "trampReceive f s = trampReceive f (s'\<lparr>serialRx := bs\<rparr>)"
proof -
  have "trampSerialPort s'"
    using trampReceive_byte_frame[OF assms(3)] assms(1) by simp
  then show ?thesis
    using assms
    by (simp add: trampReceive_def trampReceive_loop_serialRx
        split: sum.splits prod.splits option.splits)
qed

text \<open>The first byte that completes a frame, behind a stretch \<open>pre\<close> on which the loop
  does not return.\<close>

lemma trampReceive_first_frame:
  assumes "trampSerialPort s" and "serialRx s = pre @ c # post"
    and "trampReceive_loop f pre s = Inr (None, [], s1)"
    and "trampReceive_byte f c s1 = Inr (Some r, s2)"
  shows "trampReceive f s = Inr (r, s2\<lparr>serialRx := post\<rparr>)"
  using assms
  by (simp add: trampReceive_def trampReceive_loop_append)

text \<open>A run of data bytes that does not reach position 16 is stored byte by byte.\<close>

lemma trampReceive_loop_data:
  assumes "trampReceiveState s = S_DATA" and "trampReceivePos s = int p"
    and "length (trampRespBuffer s) = 16" and "p + length ds \<le> 15"
  shows "trampReceive_loop f (ds @ rest) s =
           trampReceive_loop f rest
             (s\<lparr>trampRespBuffer :=
                  take p (trampRespBuffer s) @ ds @ drop (p + length ds) (trampRespBuffer s),
                trampReceivePos := int (p + length ds)\<rparr>)"
  using assms
proof (induction ds arbitrary: s p)
  case Nil
  show ?case using Nil.prems(2)[symmetric] by simp
next
  case (Cons d ds)
  let ?b = "trampRespBuffer s"
  define s1 where "s1 = s\<lparr>trampRespBuffer := ?b[p := d], trampReceivePos := int (Suc p)\<rparr>"
  have p15: "p < 15" using Cons.prems(4) by simp
  have step: "trampReceive_byte f d s = Inr (None, s1)"
    using Cons.prems(1,2,3) p15
    by (simp add: trampReceive_byte_def Let_def s1_def)
  have h: "trampReceiveState s1 = S_DATA" "trampReceivePos s1 = int (Suc p)"
    "length (trampRespBuffer s1) = 16" "Suc p + length ds \<le> 15"
    using Cons.prems by (simp_all add: s1_def)
  have tk: "take (Suc p) (?b[p := d]) = take p ?b @ [d]"
    using Cons.prems(3) p15 by (simp add: take_Suc_conv_app_nth)
  have dr: "drop (Suc p + length ds) (?b[p := d]) = drop (Suc p + length ds) ?b"
    by simp
  have "trampReceive_loop f ((d # ds) @ rest) s = trampReceive_loop f (ds @ rest) s1"
    using step by simp
  also have "\<dots> = trampReceive_loop f rest
             (s1\<lparr>trampRespBuffer :=
                  take (Suc p) (trampRespBuffer s1) @ ds
                    @ drop (Suc p + length ds) (trampRespBuffer s1),
                trampReceivePos := int (Suc p + length ds)\<rparr>)"
    by (rule Cons.IH[OF h])
  also have "s1\<lparr>trampRespBuffer :=
                  take (Suc p) (trampRespBuffer s1) @ ds
                    @ drop (Suc p + length ds) (trampRespBuffer s1),
                trampReceivePos := int (Suc p + length ds)\<rparr>
           = s\<lparr>trampRespBuffer := take p ?b @ (d # ds) @ drop (p + length (d # ds)) ?b,
                trampReceivePos := int (p + length (d # ds))\<rparr>"
    by (simp add: s1_def tk dr)
  finally show ?case .
qed

text \<open>A whole frame arrives at the idle receiver, with more bytes behind it.\<close>

lemma trampReceive_loop_frame_first:
  assumes "rx_inv s" and "trampReceiveState s = S_WAIT_LEN"
    and "length fr = 16" and "fr ! 0 = 15" and "trampIsValidResponseCode (fr ! 1)"
    and "fr ! 14 = trampChecksum fr" and "fr ! 15 = 0"
  shows "trampReceive_loop f (fr @ post) s =
           (case trampHandleResponse f
                   (s\<lparr>trampRespBuffer := fr, trampReceiveState := S_WAIT_LEN,
                      trampReceivePos := 0\<rparr>) of
              (r, s3) \<Rightarrow> Inr (Some r, post, s3))"
proof -
  let ?b = "trampRespBuffer s"
  have len: "length ?b = 16" and pos: "trampReceivePos s = 0"
    using assms(1,2) by (simp_all add: rx_inv_def)
  define ds where "ds = take 13 (drop 2 fr)"
  have t2: "take 2 fr = [fr ! 0, fr ! 1]"
    using assms(3) by (simp add: numeral_2_eq_2 take_Suc_conv_app_nth)
  have d15: "drop 15 fr = [fr ! 15]"
    using Cons_nth_drop_Suc[of 15 fr] assms(3) by simp
  have "take 13 (drop 2 fr) @ drop 13 (drop 2 fr) = drop 2 fr"
    by (rule append_take_drop_id)
  then have "take 2 fr @ take 13 (drop 2 fr) @ drop 15 fr = take 2 fr @ drop 2 fr"
    by simp
  then have "fr = take 2 fr @ take 13 (drop 2 fr) @ drop 15 fr"
    by (simp only: append_take_drop_id)
  then have fr: "fr = fr ! 0 # fr ! 1 # ds @ [fr ! 15]"
    by (simp add: t2 d15 ds_def)
  have lds: "length ds = 13"
    using assms(3) by (simp add: ds_def)
  define s1 where "s1 = s\<lparr>trampRespBuffer := ?b[0 := fr ! 0], trampReceivePos := 1,
                            trampReceiveState := S_WAIT_CODE\<rparr>"
  define s2 where "s2 = s1\<lparr>trampRespBuffer := (trampRespBuffer s1)[1 := fr ! 1],
                             trampReceivePos := 2, trampReceiveState := S_DATA\<rparr>"
  have b1: "trampReceive_byte f (fr ! 0) s = Inr (None, s1)"
    using assms(2,4) pos by (simp add: trampReceive_byte_def Let_def s1_def)
  have b2: "trampReceive_byte f (fr ! 1) s1 = Inr (None, s2)"
    using assms(5) by (simp add: trampReceive_byte_def Let_def s1_def s2_def)
  have h2: "trampReceiveState s2 = S_DATA" "trampReceivePos s2 = int 2"
    "length (trampRespBuffer s2) = 16" "2 + length ds \<le> 15"
    using len lds by (simp_all add: s1_def s2_def)
  define s3 where
    "s3 = s2\<lparr>trampRespBuffer :=
                take 2 (trampRespBuffer s2) @ ds @ drop (2 + length ds) (trampRespBuffer s2),
              trampReceivePos := int (2 + length ds)\<rparr>"
  have run: "trampReceive_loop f (ds @ fr ! 15 # post) s2 = trampReceive_loop f (fr ! 15 # post) s3"
    unfolding s3_def by (rule trampReceive_loop_data[OF h2])
  have "trampReceive_loop f (fr @ post) s
          = trampReceive_loop f (fr ! 0 # fr ! 1 # ds @ fr ! 15 # post) s"
    by (subst fr) simp
  also have "\<dots> = trampReceive_loop f (fr ! 15 # post) s3"
    using b1 b2 run by simp
  finally have whole: "trampReceive_loop f (fr @ post) s = trampReceive_loop f (fr ! 15 # post) s3" .
  have buf3: "trampRespBuffer s3 = fr ! 0 # fr ! 1 # ds @ [?b ! 15]"
    using len lds
    by (intro nth_equalityI)
       (auto simp add: s3_def s2_def s1_def nth_Cons nth_append nth_list_update
          split: nat.splits)
  have i3: "rx_inv s3" "trampReceiveState s3 = S_DATA" "trampReceivePos s3 = 15"
    using len lds by (simp_all add: s3_def s2_def s1_def rx_inv_def)
  have n15: "(15::nat) = Suc (Suc (length ds))" and n14: "(14::nat) = Suc (Suc 12)"
    using lds by simp_all
  have "(fr ! 0 # fr ! 1 # ds @ [?b ! 15])[15 := fr ! 15] = fr ! 0 # fr ! 1 # ds @ [fr ! 15]"
    unfolding n15 by (simp add: list_update_append)
  then have upd: "(trampRespBuffer s3)[15 := fr ! 15] = fr"
    using fr by (simp only: buf3)
  have "(fr ! 0 # fr ! 1 # ds @ [x]) ! 14 = ds ! 12" for x
    unfolding n14 using lds by (simp add: nth_append)
  from this[of "?b ! 15"] this[of "fr ! 15"]
  have c14: "trampRespBuffer s3 ! 14 = fr ! 14"
    using fr by (simp only: buf3)
  have ck: "trampChecksum (trampRespBuffer s3) = trampChecksum fr"
    using trampChecksum_update_high[of 15 "trampRespBuffer s3" "fr ! 15"] upd by simp
  have st: "s3\<lparr>trampRespBuffer := fr, trampReceiveState := S_WAIT_LEN, trampReceivePos := 0\<rparr>
            = s\<lparr>trampRespBuffer := fr, trampReceiveState := S_WAIT_LEN, trampReceivePos := 0\<rparr>"
    by (cases s) (simp add: s3_def s2_def s1_def)
  have last: "trampReceive_byte f (fr ! 15) s3 =
               (case trampHandleResponse f
                   (s\<lparr>trampRespBuffer := fr, trampReceiveState := S_WAIT_LEN,
                      trampReceivePos := 0\<rparr>) of
                  (r, s4) \<Rightarrow> Inr (Some r, s4))"
    unfolding trampReceive_byte_last[OF i3] upd c14 ck st
    using assms(6,7) by simp
  show ?thesis
    unfolding whole by (simp add: last split: prod.splits)
qed

text \<open>
  Claim C3, amended. With the port open and the receiver in a consistent state, one call of
  \<open>trampReceive\<close> reads the waiting bytes one by one and stops at the first byte that
  completes a frame whose checksum and terminator are good: the byte read in \<open>S_DATA\<close> at
  position 15, when it is 0 and byte 14 is the checksum. There it returns at once, with
  what \<open>trampHandleResponse\<close> returns, and every byte behind that frame is still on the
  port for the next call. On any other byte it goes on with the next one, so when no frame
  completes it reads all the bytes. In particular a whole valid frame arriving at the idle
  receiver ends the call, whatever follows it. The receiver state is kept between calls:
  when the loop runs dry on a first fragment \<open>xs\<close>, one call on \<open>xs @ ys\<close> gives what a
  call on \<open>ys\<close> gives from the state the call on \<open>xs\<close> left.
\<close>

theorem trampReceive_consumes_until_frame:
  assumes "rx_inv s" and "trampSerialPort s"
  shows "(\<exists>r s'. trampReceive f s = Inr (r, s') \<and> rx_inv s'
           \<and> (\<exists>used. serialRx s = used @ serialRx s')
           \<and> (serialRx s' \<noteq> [] \<longrightarrow>
                 trampReceiveState s' = S_WAIT_LEN \<and> trampReceivePos s' = 0
                 \<and> trampRespBuffer s' ! 14 = trampChecksum (trampRespBuffer s')
                 \<and> trampRespBuffer s' ! 15 = 0))
       \<and> (\<forall>c. (\<exists>r s'. trampReceive_byte f c s = Inr (Some r, s'))
              \<longleftrightarrow> trampReceiveState s = S_DATA \<and> trampReceivePos s = 15 \<and> c = 0
                  \<and> trampRespBuffer s ! 14 = trampChecksum (trampRespBuffer s))
       \<and> (\<forall>c bs r s'. serialRx s = c # bs \<and> trampReceive_byte f c s = Inr (Some r, s') \<longrightarrow>
              trampReceive f s = Inr (r, s'\<lparr>serialRx := bs\<rparr>))
       \<and> (\<forall>c bs s'. serialRx s = c # bs \<and> trampReceive_byte f c s = Inr (None, s') \<longrightarrow>
              trampReceive f s = trampReceive f (s'\<lparr>serialRx := bs\<rparr>))
       \<and> (\<forall>pre c post s1 r s2.
              serialRx s = pre @ c # post \<and> trampReceive_loop f pre s = Inr (None, [], s1)
              \<and> trampReceive_byte f c s1 = Inr (Some r, s2) \<longrightarrow>
              trampReceive f s = Inr (r, s2\<lparr>serialRx := post\<rparr>))
       \<and> (\<forall>fr post.
              trampReceiveState s = S_WAIT_LEN \<and> serialRx s = fr @ post \<and> length fr = 16
              \<and> fr ! 0 = 15 \<and> trampIsValidResponseCode (fr ! 1)
              \<and> fr ! 14 = trampChecksum fr \<and> fr ! 15 = 0 \<longrightarrow>
              trampReceive f s =
                (case trampHandleResponse f
                        (s\<lparr>trampRespBuffer := fr, trampReceiveState := S_WAIT_LEN,
                           trampReceivePos := 0\<rparr>) of
                   (r, s3) \<Rightarrow> Inr (r, s3\<lparr>serialRx := post\<rparr>)))
       \<and> (\<forall>xs ys s1. trampReceive_loop f xs s = Inr (None, [], s1) \<longrightarrow>
              trampReceive f (s\<lparr>serialRx := xs\<rparr>) = Inr (0, s1\<lparr>serialRx := []\<rparr>)
              \<and> trampReceive f (s\<lparr>serialRx := xs @ ys\<rparr>) = trampReceive f (s1\<lparr>serialRx := ys\<rparr>))"
proof (intro conjI allI impI)
  from trampReceive_total[OF assms(1), of f] assms(2)
  show "\<exists>r s'. trampReceive f s = Inr (r, s') \<and> rx_inv s'
           \<and> (\<exists>used. serialRx s = used @ serialRx s')
           \<and> (serialRx s' \<noteq> [] \<longrightarrow>
                 trampReceiveState s' = S_WAIT_LEN \<and> trampReceivePos s' = 0
                 \<and> trampRespBuffer s' ! 14 = trampChecksum (trampRespBuffer s')
                 \<and> trampRespBuffer s' ! 15 = 0)"
    by blast
next
  fix c
  show "(\<exists>r s'. trampReceive_byte f c s = Inr (Some r, s'))
          \<longleftrightarrow> trampReceiveState s = S_DATA \<and> trampReceivePos s = 15 \<and> c = 0
              \<and> trampRespBuffer s ! 14 = trampChecksum (trampRespBuffer s)"
    by (rule trampReceive_byte_Some_iff[OF assms(1)])
next
  fix c bs r s'
  assume "serialRx s = c # bs \<and> trampReceive_byte f c s = Inr (Some r, s')"
  then show "trampReceive f s = Inr (r, s'\<lparr>serialRx := bs\<rparr>)"
    using trampReceive_return[OF assms(2)] by blast
next
  fix c bs s'
  assume "serialRx s = c # bs \<and> trampReceive_byte f c s = Inr (None, s')"
  then show "trampReceive f s = trampReceive f (s'\<lparr>serialRx := bs\<rparr>)"
    using trampReceive_continue[OF assms(2)] by blast
next
  fix pre c post s1 r s2
  assume "serialRx s = pre @ c # post \<and> trampReceive_loop f pre s = Inr (None, [], s1)
              \<and> trampReceive_byte f c s1 = Inr (Some r, s2)"
  then show "trampReceive f s = Inr (r, s2\<lparr>serialRx := post\<rparr>)"
    using trampReceive_first_frame[OF assms(2)] by blast
next
  fix fr post
  assume h: "trampReceiveState s = S_WAIT_LEN \<and> serialRx s = fr @ post \<and> length fr = 16
              \<and> fr ! 0 = 15 \<and> trampIsValidResponseCode (fr ! 1)
              \<and> fr ! 14 = trampChecksum fr \<and> fr ! 15 = 0"
  then have "trampReceive_loop f (fr @ post) s =
           (case trampHandleResponse f
                   (s\<lparr>trampRespBuffer := fr, trampReceiveState := S_WAIT_LEN,
                      trampReceivePos := 0\<rparr>) of
              (r, s3) \<Rightarrow> Inr (Some r, post, s3))"
    using trampReceive_loop_frame_first[OF assms(1), of fr f post] by blast
  then show "trampReceive f s =
                (case trampHandleResponse f
                        (s\<lparr>trampRespBuffer := fr, trampReceiveState := S_WAIT_LEN,
                           trampReceivePos := 0\<rparr>) of
                   (r, s3) \<Rightarrow> Inr (r, s3\<lparr>serialRx := post\<rparr>))"
    using assms(2) h by (simp add: trampReceive_def split: prod.splits)
next
  fix xs ys s1
  assume l: "trampReceive_loop f xs s = Inr (None, [], s1)"
  have p1: "trampSerialPort s1"
    using trampReceive_loop_frame[OF l] assms(2) by simp
  show "trampReceive f (s\<lparr>serialRx := xs\<rparr>) = Inr (0, s1\<lparr>serialRx := []\<rparr>)"
    using assms(2) l by (simp add: trampReceive_def trampReceive_loop_serialRx)
  show "trampReceive f (s\<lparr>serialRx := xs @ ys\<rparr>) = trampReceive f (s1\<lparr>serialRx := ys\<rparr>)"
    using assms(2) p1 l
    by (simp add: trampReceive_def trampReceive_loop_serialRx trampReceive_loop_append
        split: sum.splits prod.splits option.splits)
qed

theorem trampReceive_consumes_until_frame_witness:
  "rx_inv mid_frame \<and> trampSerialPort mid_frame
   \<and> trampReceive keep_bandchan
        (mid_frame\<lparr>serialRx := [22, 25, 0, 0, 0, 25, 0, 0, 0, 0, 0, 182, 0, 15, 118]\<rparr>)
      = Inr (118, mid_frame\<lparr>serialRx := [15, 118],
                trampRespBuffer := [15, 118, 248, 22, 25, 0, 0, 0, 25, 0, 0, 0, 0, 0, 182, 0],
                trampCurFreq := 5880, trampCurPower := 25, trampCurConfigPower := 25,
                trampReceiveState := S_WAIT_LEN, trampReceivePos := 0\<rparr>)
   \<and> trampReceive keep_bandchan
        (tramp_init\<lparr>trampSerialPort := True,
            serialRx := [15, 118, 248] @ [22, 25, 0, 0, 0, 25, 0, 0, 0, 0, 0, 182, 0, 15, 118]\<rparr>)
      = trampReceive keep_bandchan
          (mid_frame\<lparr>serialRx := [22, 25, 0, 0, 0, 25, 0, 0, 0, 0, 0, 182, 0, 15, 118]\<rparr>)
   \<and> serialRx (snd (projr (trampReceive keep_bandchan
        (tramp_init\<lparr>trampSerialPort := True,
            serialRx := [15, 115, 0, 0, 0, 0, 0, 0, 0, 0, 0, 0, 0, 0, 115, 0] @ [15, 118]\<rparr>))))
      = [15, 118]"
proof -
  let ?s = "tramp_init\<lparr>trampSerialPort := True\<rparr>"
  let ?fr = "[15, 115, 0, 0, 0, 0, 0, 0, 0, 0, 0, 0, 0, 0, 115, 0] :: u8 list"
  let ?t = "?s\<lparr>serialRx := ?fr @ [15, 118]\<rparr>"
  have i: "rx_inv ?s" and po: "trampSerialPort ?s"
    by (simp_all add: rx_inv_def tramp_init_def)
  have it: "rx_inv ?t" and pt: "trampSerialPort ?t"
    by (simp_all add: rx_inv_def tramp_init_def)
  have l: "trampReceive_loop keep_bandchan [15, 118, 248] ?s = Inr (None, [], mid_frame)"
    by code_simp
  have m: "rx_inv mid_frame \<and> trampSerialPort mid_frame"
    by (simp add: rx_inv_def mid_frame_def tramp_init_def)
  have e: "trampReceive keep_bandchan
        (mid_frame\<lparr>serialRx := [22, 25, 0, 0, 0, 25, 0, 0, 0, 0, 0, 182, 0, 15, 118]\<rparr>)
      = Inr (118, mid_frame\<lparr>serialRx := [15, 118],
                trampRespBuffer := [15, 118, 248, 22, 25, 0, 0, 0, 25, 0, 0, 0, 0, 0, 182, 0],
                trampCurFreq := 5880, trampCurPower := 25, trampCurConfigPower := 25,
                trampReceiveState := S_WAIT_LEN, trampReceivePos := 0\<rparr>)"
    by code_simp
  from trampReceive_consumes_until_frame[OF i po, of keep_bandchan] l
  have fragm: "trampReceive keep_bandchan
          (?s\<lparr>serialRx := [15, 118, 248] @ [22, 25, 0, 0, 0, 25, 0, 0, 0, 0, 0, 182, 0, 15, 118]\<rparr>)
        = trampReceive keep_bandchan
          (mid_frame\<lparr>serialRx := [22, 25, 0, 0, 0, 25, 0, 0, 0, 0, 0, 182, 0, 15, 118]\<rparr>)"
    by blast
  have v: "trampReceiveState ?t = S_WAIT_LEN \<and> serialRx ?t = ?fr @ [15, 118] \<and> length ?fr = 16
              \<and> ?fr ! 0 = 15 \<and> trampIsValidResponseCode (?fr ! 1)
              \<and> ?fr ! 14 = trampChecksum ?fr \<and> ?fr ! 15 = 0"
    by (simp add: tramp_init_def trampIsValidResponseCode_def trampChecksum_unfold)
  from trampReceive_consumes_until_frame[OF it pt, of keep_bandchan] v
  have "trampReceive keep_bandchan ?t =
                (case trampHandleResponse keep_bandchan
                        (?t\<lparr>trampRespBuffer := ?fr, trampReceiveState := S_WAIT_LEN,
                           trampReceivePos := 0\<rparr>) of
                   (r, s3) \<Rightarrow> Inr (r, s3\<lparr>serialRx := [15, 118]\<rparr>))"
    by blast
  then have stop: "serialRx (snd (projr (trampReceive keep_bandchan ?t))) = [15, 118]"
    by (simp split: prod.splits)
  from m e fragm stop show ?thesis by simp
qed

text \<open>
  The claim as first stated fails when bytes follow a complete frame: an 's' frame followed
  by two more bytes; the call returns at the end of the frame and the two bytes are still
  waiting.
\<close>

theorem trampReceive_stops_at_frame:
  "trampReceive keep_bandchan
     (tramp_init\<lparr>trampSerialPort := True,
         serialRx := [15, 115, 0, 0, 0, 0, 0, 0, 0, 0, 0, 0, 0, 0, 115, 0, 15, 118]\<rparr>)
   = Inr (0, tramp_init\<lparr>trampSerialPort := True, serialRx := [15, 118],
               trampRespBuffer := [15, 115, 0, 0, 0, 0, 0, 0, 0, 0, 0, 0, 0, 0, 115, 0]\<rparr>)
   \<and> serialRx (tramp_init\<lparr>trampSerialPort := True, serialRx := [15, 118],
               trampRespBuffer := [15, 115, 0, 0, 0, 0, 0, 0, 0, 0, 0, 0, 0, 0, 115, 0]\<rparr>) \<noteq> []"
  by code_simp

section \<open>Time comparison\<close>

lemma sint_u32: "sint (w::u32) = (if uint w < 2 ^ 31 then uint w else uint w - 2 ^ 32)"
proof -
  have b: "0 \<le> uint w" "uint w < 2 ^ 32"
    using uint_lt2p[of w] by simp_all
  have "sint w = (uint w + 2 ^ 31) mod 2 ^ 32 - 2 ^ 31"
    by (simp add: sint_uint signed_take_bit_eq_take_bit_shift take_bit_eq_mod)
  also have "\<dots> = (if uint w < 2 ^ 31 then uint w else uint w - 2 ^ 32)"
  proof (cases "uint w < 2 ^ 31")
    case True
    then have "(uint w + 2 ^ 31) mod 2 ^ 32 = uint w + 2 ^ 31"
      using b by (simp add: mod_pos_pos_trivial)
    with True show ?thesis by simp
  next
    case False
    then have "(uint w + 2 ^ 31) mod 2 ^ 32 = uint w + 2 ^ 31 - 2 ^ 32"
      using b by (simp add: mod_pos_geq mod_pos_pos_trivial)
    with False show ?thesis by simp
  qed
  finally show ?thesis .
qed

text \<open>The last query time is \<open>t + 300000\<close>: the 200 ms test passes from 500 ms after \<open>t\<close>
  on, as long as the elapsed time read as a signed number is positive.\<close>

lemma sint_sub_delay:
  fixes x :: int
  assumes "0 \<le> x" "x < 2 ^ 32"
  shows "(let y = (if 300000 \<le> x then x - 300000 else x - 300000 + 2 ^ 32)
          in 200000 < (if y < 2 ^ 31 then y else y - 2 ^ 32))
         \<longleftrightarrow> 500000 < x \<and> x < 2 ^ 31 + 300000"
  using assms by (auto simp add: Let_def)

lemma cmp32_after_delay:
  "cmp32 u (t + 300 * 1000) > 200 * 1000
     \<longleftrightarrow> 500000 < unat (u - t) \<and> unat (u - t) < 2 ^ 31 + 300000"
proof -
  define x where "x = uint (u - t)"
  have e: "u - (t + 300 * 1000) = (u - t) - 300000"
    by simp
  have d: "uint ((u - t) - 300000) =
            (if 300000 \<le> x then x - 300000 else x - 300000 + 2 ^ 32)"
    by (simp add: uint_sub_if' x_def)
  have b: "0 \<le> x" "x < 2 ^ 32"
    using uint_lt2p[of "u - t"] by (simp_all add: x_def)
  have n: "unat (u - t) = nat x"
    by (simp add: x_def)
  have "cmp32 u (t + 300 * 1000) > 200 * 1000 \<longleftrightarrow> 500000 < x \<and> x < 2 ^ 31 + 300000"
    unfolding cmp32_def e sint_u32 d using sint_sub_delay[OF b] by (simp add: Let_def)
  also have "\<dots> \<longleftrightarrow> 500000 < unat (u - t) \<and> unat (u - t) < 2 ^ 31 + 300000"
    unfolding n using b(1) by auto
  finally show ?thesis .
qed

section \<open>The tick\<close>

lemma trampQueryV_open:
  "trampSerialPort s \<Longrightarrow>
   trampQueryV s = s\<lparr>trampReceiveState := S_WAIT_LEN, trampReceivePos := 0,
                     trampReqBuffer := CommandPacket 118 0,
                     serialTx := serialTx s @ [CommandPacket 118 0]\<rparr>"
  by (cases s) (simp add: trampQueryV_def trampQuery_def trampResetReceiver_def trampCmdU16_packet)

lemma trampProcess_status_set:
  assumes "trampStatus s = TRAMP_STATUS_SET_FREQ_PW" and "trampSerialPort s"
  shows "trampProcess_status t s =
           (if trampConfFreq s \<noteq> trampCurFreq s then
              s\<lparr>trampReqBuffer := CommandPacket 70 (ucast (trampConfFreq s)),
                serialTx := serialTx s @ [CommandPacket 70 (ucast (trampConfFreq s))],
                trampStatus := TRAMP_STATUS_CHECK_FREQ_PW,
                lastQueryTimeUs := t + 300 * 1000\<rparr>
            else if trampConfPower s \<noteq> trampCurConfigPower s then
              s\<lparr>trampReqBuffer := CommandPacket 80 (trampConfPower s),
                serialTx := serialTx s @ [CommandPacket 80 (trampConfPower s)],
                trampStatus := TRAMP_STATUS_CHECK_FREQ_PW,
                lastQueryTimeUs := t + 300 * 1000\<rparr>
            else s\<lparr>trampStatus := TRAMP_STATUS_ONLINE\<rparr>)"
  using assms
  by (simp add: trampProcess_status_def trampSendFreq_def trampSendRFPower_def
      trampCmdU16_packet)

lemma trampProcess_status_check:
  assumes "trampStatus s = TRAMP_STATUS_CHECK_FREQ_PW" and "trampSerialPort s"
  shows "trampProcess_status u s =
           (if cmp32 u (lastQueryTimeUs s) > 200 * 1000 then
              s\<lparr>trampReceiveState := S_WAIT_LEN, trampReceivePos := 0,
                trampReqBuffer := CommandPacket 118 0,
                serialTx := serialTx s @ [CommandPacket 118 0],
                lastQueryTimeUs := u\<rparr>
            else s)"
  using assms
  by (simp add: trampProcess_status_def trampQueryV_open)

lemma trampProcess_reply_keeps:
  "trampStatus s = TRAMP_STATUS_SET_FREQ_PW \<Longrightarrow> trampProcess_reply r s = s"
  "trampStatus s = TRAMP_STATUS_CHECK_FREQ_PW \<Longrightarrow> r \<noteq> 118 \<Longrightarrow> trampProcess_reply r s = s"
  by (simp_all add: trampProcess_reply_def)

lemma ucast_u16_u32: "ucast (ucast (ucast (x::u16) :: u32) :: u16) = (ucast x :: u32)"
  by (rule bit_word_eqI) (auto simp add: bit_simps dest: bit_imp_le_length)

lemma ctl_inv_cong:
  assumes "trampRespBuffer s' = trampRespBuffer s" "trampReceiveState s' = trampReceiveState s"
    "trampReceivePos s' = trampReceivePos s" "trampStatus s' = trampStatus s"
    "trampSerialPort s' = trampSerialPort s" "trampConfFreq s' = trampConfFreq s"
  shows "ctl_inv s' = ctl_inv s"
  using assms by (simp add: ctl_inv_def rx_inv_def)

lemma trampCmdU16_frame:
  "trampStatus (trampCmdU16 c p s) = trampStatus s
   \<and> trampSerialPort (trampCmdU16 c p s) = trampSerialPort s
   \<and> trampConfFreq (trampCmdU16 c p s) = trampConfFreq s
   \<and> trampConfPower (trampCmdU16 c p s) = trampConfPower s
   \<and> lastQueryTimeUs (trampCmdU16 c p s) = lastQueryTimeUs s
   \<and> serialRx (trampCmdU16 c p s) = serialRx s"
  by (cases "trampSerialPort s") (simp_all add: trampCmdU16_packet trampCmdU16_closed)

lemma ctl_inv_cmd: "ctl_inv s \<Longrightarrow> ctl_inv (trampCmdU16 c p s)"
  using ctl_inv_cong[of "trampCmdU16 c p s" s]
  by (simp add: trampCmdU16_frame trampCmdU16_receiver)

lemma ctl_inv_query: "ctl_inv s \<Longrightarrow> ctl_inv (trampQuery c s)"
proof -
  assume i: "ctl_inv s"
  have "ctl_inv (trampResetReceiver s)"
    using i by (simp add: ctl_inv_def rx_inv_def trampResetReceiver_def)
  then show ?thesis
    unfolding trampQuery_def by (rule ctl_inv_cmd)
qed

lemma trampReceive_closed: "\<not> trampSerialPort s \<Longrightarrow> trampReceive f s = Inr (0, s)"
  by (simp add: trampReceive_def)

lemma ctl_inv_status:
  assumes "ctl_inv s"
  shows "ctl_inv (trampProcess_status t s)"
proof (cases "trampStatus s")
  case TRAMP_STATUS_BAD_DEVICE
  with assms show ?thesis by (simp add: trampProcess_status_def)
next
  case TRAMP_STATUS_OFFLINE
  have "ctl_inv ((trampQueryR s)\<lparr>lastQueryTimeUs := t\<rparr>)"
    using ctl_inv_query[OF assms, of 114]
      ctl_inv_cong[of "(trampQueryR s)\<lparr>lastQueryTimeUs := t\<rparr>" "trampQueryR s"]
    by (simp add: trampQueryR_def)
  with TRAMP_STATUS_OFFLINE assms show ?thesis
    by (simp add: trampProcess_status_def)
next
  case TRAMP_STATUS_ONLINE
  have "ctl_inv ((trampQueryV s)\<lparr>lastQueryTimeUs := t\<rparr>)"
    using ctl_inv_query[OF assms, of 118]
      ctl_inv_cong[of "(trampQueryV s)\<lparr>lastQueryTimeUs := t\<rparr>" "trampQueryV s"]
    by (simp add: trampQueryV_def)
  with TRAMP_STATUS_ONLINE assms show ?thesis
    by (simp add: trampProcess_status_def)
next
  case TRAMP_STATUS_SET_FREQ_PW
  then have po: "trampSerialPort s"
    using assms by (simp add: ctl_inv_def)
  show ?thesis
    using assms po
    by (auto simp add: trampProcess_status_set[OF TRAMP_STATUS_SET_FREQ_PW po] ctl_inv_def rx_inv_def)
next
  case TRAMP_STATUS_CHECK_FREQ_PW
  then have po: "trampSerialPort s"
    using assms by (simp add: ctl_inv_def)
  show ?thesis
    using assms po TRAMP_STATUS_CHECK_FREQ_PW
    by (auto simp add: trampProcess_status_check[OF TRAMP_STATUS_CHECK_FREQ_PW po] ctl_inv_def rx_inv_def)
qed

lemma ctl_inv_process:
  assumes "ctl_inv s"
  shows "\<exists>s'. trampProcess f t s = Inr s' \<and> ctl_inv s'"
proof (cases "trampStatus s = TRAMP_STATUS_BAD_DEVICE")
  case True
  with assms show ?thesis by (simp add: trampProcess_def)
next
  case False
  from assms have rx: "rx_inv s" by (simp add: ctl_inv_def)
  from trampReceive_total[OF rx, of f]
  obtain r s1 where rc: "trampReceive f s = Inr (r, s1)" and i1: "rx_inv s1"
    and fr: "trampSerialPort s1 = trampSerialPort s" "trampStatus s1 = trampStatus s"
      "trampConfFreq s1 = trampConfFreq s"
    by blast
  have c1: "ctl_inv s1"
    using assms i1 fr by (simp add: ctl_inv_def)
  have "r \<noteq> 0 \<longrightarrow> trampSerialPort s"
    using rc by (cases "trampSerialPort s") (simp_all add: trampReceive_closed)
  then have "ctl_inv (trampProcess_reply r s1)"
    using c1 fr by (auto simp add: trampProcess_reply_def ctl_inv_def rx_inv_def)
  then have "ctl_inv (trampProcess_status t (trampProcess_reply r s1))"
    by (rule ctl_inv_status)
  with False rc show ?thesis
    by (simp add: trampProcess_def)
qed

lemma reachable_inv: "reachable f tbl s \<Longrightarrow> ctl_inv s"
proof (induction rule: reachable.induct)
  case start
  show ?case by (simp add: ctl_inv_def rx_inv_def tramp_init_def)
next
  case (init portConfig opened)
  show ?case
    by (simp add: trampInit_def ctl_inv_def rx_inv_def tramp_init_def Let_def)
next
  case (arrive s bs)
  then show ?case by (simp add: ctl_inv_def rx_inv_def)
next
  case (bad_device s)
  then show ?case by (simp add: ctl_inv_def rx_inv_def)
next
  case (process s t s')
  with ctl_inv_process[of s f t] show ?case by simp
next
  case (cmd s c param)
  then show ?case by (simp add: ctl_inv_cmd)
next
  case (query s c)
  then show ?case by (simp add: ctl_inv_query)
next
  case (set_freq s freq)
  then show ?case
    by (simp add: trampSetFreq_def ctl_inv_def rx_inv_def ucast_u16_u32)
next
  case (set_band_chan s band chan s')
  then show ?case
    by (auto simp add: trampSetBandChan_def trampSetFreq_def ctl_inv_def rx_inv_def ucast_u16_u32
        Let_def split: if_splits)
next
  case (set_power s level)
  then show ?case by (simp add: trampSetRFPower_def ctl_inv_def rx_inv_def)
next
  case (commit s)
  then show ?case by (simp add: trampCommitChanges_def ctl_inv_def rx_inv_def)
qed

lemma online_state_reachable: "reachable f tbl online_state"
proof -
  let ?s1 = "snd (trampInit True True tramp_init)"
  let ?s2 = "?s1\<lparr>serialRx := serialRx ?s1 @ [15, 114, 13, 22, 57, 23, 88, 2, 0, 0, 0, 0, 0, 0, 63, 0]\<rparr>"
  have "reachable f tbl ?s2"
    by (intro reachable.arrive reachable.init)
  moreover have "trampProcess f 0 ?s2 = Inr online_state"
    by code_simp
  ultimately show ?thesis
    by (rule reachable.process)
qed

lemma commit_state_reachable: "reachable f tbl commit_state"
proof -
  have "reachable f tbl (snd (trampCommitChanges (trampSetFreq 5880 online_state)))"
    by (intro reachable.commit reachable.set_freq online_state_reachable)
  moreover have "snd (trampCommitChanges (trampSetFreq 5880 online_state)) = commit_state"
    by code_simp
  ultimately show ?thesis by simp
qed

lemma tick_set_freq_pw_branch:
  assumes po: "trampSerialPort s" and rx: "rx_inv s"
    and rc: "trampReceive f s = Inr (r, s1)"
    and en: "trampStatus s = TRAMP_STATUS_SET_FREQ_PW
             \<or> (trampStatus s = TRAMP_STATUS_CHECK_FREQ_PW \<and> r = 118)"
  shows "trampProcess f t s = Inr
               (if trampConfFreq s \<noteq> trampCurFreq s1 then
                  s1\<lparr>trampReqBuffer := CommandPacket 70 (ucast (trampConfFreq s)),
                     serialTx := serialTx s @ [CommandPacket 70 (ucast (trampConfFreq s))],
                     trampStatus := TRAMP_STATUS_CHECK_FREQ_PW,
                     lastQueryTimeUs := t + 300 * 1000\<rparr>
                else if trampConfPower s \<noteq> trampCurConfigPower s1 then
                  s1\<lparr>trampReqBuffer := CommandPacket 80 (trampConfPower s),
                     serialTx := serialTx s @ [CommandPacket 80 (trampConfPower s)],
                     trampStatus := TRAMP_STATUS_CHECK_FREQ_PW,
                     lastQueryTimeUs := t + 300 * 1000\<rparr>
                else s1\<lparr>trampStatus := TRAMP_STATUS_ONLINE\<rparr>)"
proof -
  from trampReceive_total[OF rx, of f] rc
  have fr: "trampSerialPort s1 = trampSerialPort s" "serialTx s1 = serialTx s"
      "trampStatus s1 = trampStatus s" "trampConfFreq s1 = trampConfFreq s"
      "trampConfPower s1 = trampConfPower s"
    by auto
  define s2 where "s2 = s1\<lparr>trampStatus := TRAMP_STATUS_SET_FREQ_PW\<rparr>"
  have r2: "trampProcess_reply r s1 = s2"
    using en fr by (cases s1) (auto simp add: trampProcess_reply_def s2_def)
  have st2: "trampStatus s2 = TRAMP_STATUS_SET_FREQ_PW" and po2: "trampSerialPort s2"
    using fr po by (simp_all add: s2_def)
  have nb: "trampStatus s \<noteq> TRAMP_STATUS_BAD_DEVICE"
    using en by auto
  have p: "trampProcess f t s = Inr (trampProcess_status t s2)"
    using nb rc r2 by (simp add: trampProcess_def)
  have sel: "trampConfFreq s2 = trampConfFreq s" "trampCurFreq s2 = trampCurFreq s1"
    "trampConfPower s2 = trampConfPower s" "trampCurConfigPower s2 = trampCurConfigPower s1"
    "serialTx s2 = serialTx s"
    using fr by (simp_all add: s2_def)
  have upd: "s2\<lparr>trampReqBuffer := a, serialTx := b, trampStatus := c, lastQueryTimeUs := d\<rparr>
             = s1\<lparr>trampReqBuffer := a, serialTx := b, trampStatus := c, lastQueryTimeUs := d\<rparr>"
    "s2\<lparr>trampStatus := c\<rparr> = s1\<lparr>trampStatus := c\<rparr>" for a b c d
    by (cases s1; simp add: s2_def)+
  show ?thesis
    unfolding p trampProcess_status_set[OF st2 po2] sel upd ..
qed

text \<open>
  Claim C2. In a reachable state, a tick first reads the port, which changes neither the
  desired configuration nor what has been sent (and nothing at all when no byte is waiting).
  When the tick is processed in status SetFreqPw, that is when it starts in SetFreqPw, or
  starts in CheckFreqPw and a status reply 'v' completes on it, it then compares desired and
  observed values, frequency first: if the desired frequency differs from the observed one
  it sends exactly one frame, the 'F' (70) command whose parameter is the desired frequency,
  and no power command; else if the desired power differs from the observed configured
  power it sends exactly one frame, the 'P' (80) command with the desired power; else it
  sends nothing and the status becomes Online. In both sending cases the status becomes
  CheckFreqPw.
\<close>

theorem set_freq_pw_tick:
  assumes "reachable f tbl s"
  shows "\<exists>r s1 freq. trampReceive f s = Inr (r, s1)
           \<and> (serialRx s = [] \<longrightarrow> r = 0 \<and> s1 = s)
           \<and> trampConfFreq s1 = trampConfFreq s \<and> trampConfPower s1 = trampConfPower s
           \<and> serialTx s1 = serialTx s
           \<and> ucast freq = trampConfFreq s
           \<and> (trampStatus s = TRAMP_STATUS_SET_FREQ_PW
                \<or> (trampStatus s = TRAMP_STATUS_CHECK_FREQ_PW \<and> r = 118) \<longrightarrow>
               trampProcess f t s = Inr
                 (if trampConfFreq s \<noteq> trampCurFreq s1 then
                    s1\<lparr>trampReqBuffer := CommandPacket 70 freq,
                       serialTx := serialTx s @ [CommandPacket 70 freq],
                       trampStatus := TRAMP_STATUS_CHECK_FREQ_PW,
                       lastQueryTimeUs := t + 300 * 1000\<rparr>
                  else if trampConfPower s \<noteq> trampCurConfigPower s1 then
                    s1\<lparr>trampReqBuffer := CommandPacket 80 (trampConfPower s),
                       serialTx := serialTx s @ [CommandPacket 80 (trampConfPower s)],
                       trampStatus := TRAMP_STATUS_CHECK_FREQ_PW,
                       lastQueryTimeUs := t + 300 * 1000\<rparr>
                  else s1\<lparr>trampStatus := TRAMP_STATUS_ONLINE\<rparr>))"
proof -
  from reachable_inv[OF assms]
  have rx: "rx_inv s"
    and po: "trampStatus s = TRAMP_STATUS_SET_FREQ_PW
              \<or> trampStatus s = TRAMP_STATUS_CHECK_FREQ_PW \<Longrightarrow> trampSerialPort s"
    and fit: "ucast (ucast (trampConfFreq s) :: u16) = trampConfFreq s"
    by (simp_all add: ctl_inv_def)
  from trampReceive_total[OF rx, of f]
  obtain r s1 where rc: "trampReceive f s = Inr (r, s1)"
    and fr: "serialTx s1 = serialTx s" "trampConfFreq s1 = trampConfFreq s"
      "trampConfPower s1 = trampConfPower s"
    by blast
  have idle: "serialRx s = [] \<longrightarrow> r = 0 \<and> s1 = s"
    using rc by (auto simp add: trampReceive_idle)
  have tick: "trampProcess f t s = Inr
                 (if trampConfFreq s \<noteq> trampCurFreq s1 then
                    s1\<lparr>trampReqBuffer := CommandPacket 70 (ucast (trampConfFreq s)),
                       serialTx := serialTx s @ [CommandPacket 70 (ucast (trampConfFreq s))],
                       trampStatus := TRAMP_STATUS_CHECK_FREQ_PW,
                       lastQueryTimeUs := t + 300 * 1000\<rparr>
                  else if trampConfPower s \<noteq> trampCurConfigPower s1 then
                    s1\<lparr>trampReqBuffer := CommandPacket 80 (trampConfPower s),
                       serialTx := serialTx s @ [CommandPacket 80 (trampConfPower s)],
                       trampStatus := TRAMP_STATUS_CHECK_FREQ_PW,
                       lastQueryTimeUs := t + 300 * 1000\<rparr>
                  else s1\<lparr>trampStatus := TRAMP_STATUS_ONLINE\<rparr>)"
    if en: "trampStatus s = TRAMP_STATUS_SET_FREQ_PW
             \<or> (trampStatus s = TRAMP_STATUS_CHECK_FREQ_PW \<and> r = 118)"
  proof -
    from en po have "trampSerialPort s" by blast
    from tick_set_freq_pw_branch[OF this rx rc en] show ?thesis .
  qed
  from rc idle fr fit tick show ?thesis by blast
qed

theorem set_freq_pw_tick_witness:
  "reachable keep_bandchan [] commit_state
   \<and> trampStatus commit_state = TRAMP_STATUS_SET_FREQ_PW
   \<and> trampProcess keep_bandchan 1000 commit_state
       = Inr (commit_state\<lparr>trampReqBuffer := CommandPacket 70 5880,
                serialTx := [CommandPacket 70 5880],
                trampStatus := TRAMP_STATUS_CHECK_FREQ_PW, lastQueryTimeUs := 301000\<rparr>)"
proof -
  have r: "reachable keep_bandchan [] commit_state"
    by (rule commit_state_reachable)
  have st: "trampStatus commit_state = TRAMP_STATUS_SET_FREQ_PW"
    by (simp add: commit_state_def)
  have e: "trampProcess keep_bandchan 1000 commit_state
       = Inr (commit_state\<lparr>trampReqBuffer := CommandPacket 70 5880,
                serialTx := [CommandPacket 70 5880],
                trampStatus := TRAMP_STATUS_CHECK_FREQ_PW, lastQueryTimeUs := 301000\<rparr>)"
    by code_simp
  from set_freq_pw_tick[OF r, of 1000] r st e show ?thesis
    by simp
qed

text \<open>Inside the window: a tick at most 500 ms after \<open>t\<close>, against a last query time that
  was set 300 ms ahead of a tick itself at most 500 ms after \<open>t\<close>.\<close>

lemma uint_le_of_unat_le: "unat (w::u32) \<le> n \<Longrightarrow> uint w \<le> int n"
  unfolding uint_nat by (simp only: of_nat_le_iff)

lemma cmp32_in_window:
  assumes "unat (u - t) \<le> 500000" and "unat (t' - t) \<le> 500000"
  shows "cmp32 u (t' + 300 * 1000) \<le> 200 * 1000"
proof -
  define a where "a = uint (u - t)"
  define b where "b = uint (t' - t)"
  have ab: "0 \<le> a" "a \<le> 500000" "0 \<le> b" "b \<le> 500000"
    using uint_le_of_unat_le[OF assms(1)] uint_le_of_unat_le[OF assms(2)]
    by (simp_all add: a_def b_def)
  define k where "k = a - b - 300000"
  have kb: "- (2 ^ 31) \<le> k" "k < 2 ^ 31" "k \<le> 200000"
    using ab by (simp_all add: k_def)
  have "u - (t' + 300 * 1000) = (u - t) - (t' - t) - 300000"
    by simp
  also have "\<dots> = word_of_int k"
    by (simp add: a_def b_def k_def)
  finally have e: "u - (t' + 300 * 1000) = word_of_int k" .
  have "sint (word_of_int k :: u32) = k"
    using kb by (simp add: sint_sbintrunc' signed_take_bit_int_eq_self)
  with kb show ?thesis
    unfolding cmp32_def e by simp
qed

lemma CommandPacket_code: "CommandPacket c p ! Suc 0 = c"
  by (simp add: CommandPacket_bytes)

lemma cmp32_window_inv:
  assumes "window_inv t s" and "unat (u - t) \<le> 500000"
  shows "cmp32 u (lastQueryTimeUs s) \<le> 200 * 1000"
proof -
  have "unat ((lastQueryTimeUs s - 300 * 1000) - t) \<le> 500000"
    using assms(1) by (simp add: window_inv_def)
  from cmp32_in_window[OF assms(2) this] show ?thesis by simp
qed

lemma window_tick:
  assumes "window_inv t s" and "unat (u - t) \<le> 500000"
  shows "\<exists>s' new. trampProcess f u s = Inr s' \<and> window_inv t s'
            \<and> serialTx s' = serialTx s @ new \<and> (\<forall>b \<in> set new. b ! 1 \<noteq> 118)"
proof -
  from assms(1) have ci: "ctl_inv s"
    and st: "trampStatus s = TRAMP_STATUS_ONLINE \<or> trampStatus s = TRAMP_STATUS_CHECK_FREQ_PW"
    and lq: "unat (lastQueryTimeUs s - 300 * 1000 - t) \<le> 500000"
    by (simp_all add: window_inv_def)
  from ci st have rx: "rx_inv s" and po: "trampSerialPort s"
    and fit: "ucast (ucast (trampConfFreq s) :: u16) = trampConfFreq s"
    by (auto simp add: ctl_inv_def)
  from trampReceive_total[OF rx, of f]
  obtain r s1 where rc: "trampReceive f s = Inr (r, s1)" and rx1: "rx_inv s1"
    and fr: "trampSerialPort s1 = trampSerialPort s" "serialTx s1 = serialTx s"
      "trampStatus s1 = trampStatus s" "trampConfFreq s1 = trampConfFreq s"
      "lastQueryTimeUs s1 = lastQueryTimeUs s"
    by blast
  have w1: "window_inv t s1"
    using rx1 fr st po fit lq by (auto simp add: window_inv_def ctl_inv_def)
  have nb: "trampStatus s \<noteq> TRAMP_STATUS_BAD_DEVICE"
    using st by auto
  have p: "trampProcess f u s = Inr (trampProcess_status u (trampProcess_reply r s1))"
    using nb rc by (simp add: trampProcess_def)
  have late: "\<not> cmp32 u (lastQueryTimeUs s1) > 200 * 1000"
    "\<not> cmp32 u (lastQueryTimeUs s1) > 1000 * 1000"
    using cmp32_window_inv[OF w1 assms(2)] by simp_all
  show ?thesis
  proof (cases "trampStatus s = TRAMP_STATUS_CHECK_FREQ_PW \<and> r = 118")
    case False
    then have "trampProcess_reply r s1 = s1"
      using st fr by (auto simp add: trampProcess_reply_def)
    moreover have "trampProcess_status u s1 = s1"
      using st fr late by (auto simp add: trampProcess_status_def)
    ultimately have "trampProcess f u s = Inr s1"
      using p by simp
    with w1 fr show ?thesis by simp
  next
    case True
    define s2 where "s2 = s1\<lparr>trampStatus := TRAMP_STATUS_SET_FREQ_PW\<rparr>"
    have r2: "trampProcess_reply r s1 = s2"
      using True fr by (simp add: trampProcess_reply_def s2_def)
    have st2: "trampStatus s2 = TRAMP_STATUS_SET_FREQ_PW" and po2: "trampSerialPort s2"
      using fr po by (simp_all add: s2_def)
    have tx2: "serialTx s2 = serialTx s"
      using fr by (simp add: s2_def)
    have c2: "rx_inv s2" "ucast (ucast (trampConfFreq s2) :: u16) = trampConfFreq s2"
      "unat (lastQueryTimeUs s2 - 300 * 1000 - t) \<le> 500000"
      using rx1 fit fr lq by (simp_all add: s2_def rx_inv_def)
    note step = trampProcess_status_set[OF st2 po2, of u]
    have p2: "trampProcess f u s = Inr (trampProcess_status u s2)"
      using p r2 by simp
    show ?thesis
    proof (cases "trampConfFreq s2 \<noteq> trampCurFreq s2")
      case True
      let ?pk = "CommandPacket 70 (ucast (trampConfFreq s2))"
      let ?s' = "s2\<lparr>trampReqBuffer := ?pk, serialTx := serialTx s2 @ [?pk],
                    trampStatus := TRAMP_STATUS_CHECK_FREQ_PW,
                    lastQueryTimeUs := u + 300 * 1000\<rparr>"
      have "trampProcess f u s = Inr ?s'"
        using p2 step True by simp
      moreover have "window_inv t ?s'"
        using c2 po2 assms(2) by (simp add: window_inv_def ctl_inv_def rx_inv_def)
      moreover have "serialTx ?s' = serialTx s @ [?pk]"
        using tx2 by simp
      moreover have "\<forall>b \<in> set [?pk]. b ! 1 \<noteq> 118"
        by (simp add: CommandPacket_code)
      ultimately show ?thesis by blast
    next
      case False
      note same_freq = this
      show ?thesis
      proof (cases "trampConfPower s2 \<noteq> trampCurConfigPower s2")
        case True
        let ?pk = "CommandPacket 80 (trampConfPower s2)"
        let ?s' = "s2\<lparr>trampReqBuffer := ?pk, serialTx := serialTx s2 @ [?pk],
                      trampStatus := TRAMP_STATUS_CHECK_FREQ_PW,
                      lastQueryTimeUs := u + 300 * 1000\<rparr>"
        have "trampProcess f u s = Inr ?s'"
          using p2 step True same_freq by simp
        moreover have "window_inv t ?s'"
          using c2 po2 assms(2) by (simp add: window_inv_def ctl_inv_def rx_inv_def)
        moreover have "serialTx ?s' = serialTx s @ [?pk]"
          using tx2 by simp
        moreover have "\<forall>b \<in> set [?pk]. b ! 1 \<noteq> 118"
          by (simp add: CommandPacket_code)
        ultimately show ?thesis by blast
      next
        case False
        let ?s' = "s2\<lparr>trampStatus := TRAMP_STATUS_ONLINE\<rparr>"
        have "trampProcess f u s = Inr ?s'"
          using p2 step False same_freq by simp
        moreover have "window_inv t ?s'"
          using c2 po2 by (simp add: window_inv_def ctl_inv_def rx_inv_def)
        moreover have "serialTx ?s' = serialTx s @ []"
          using tx2 by simp
        ultimately show ?thesis by (metis empty_iff list.set(1))
      qed
    qed
  qed
qed

lemma window_feed:
  assumes "window_inv t s" and "\<forall>(u, bs) \<in> set run. unat (u - t) \<le> 500000"
  shows "\<exists>s' new. trampProcess_feed f run s = Inr s' \<and> window_inv t s'
            \<and> serialTx s' = serialTx s @ new \<and> (\<forall>b \<in> set new. b ! 1 \<noteq> 118)"
  using assms
proof (induction run arbitrary: s)
  case Nil
  then show ?case by simp
next
  case (Cons x run)
  obtain u bs where x: "x = (u, bs)" by (cases x)
  have w0: "window_inv t (s\<lparr>serialRx := serialRx s @ bs\<rparr>)"
    using Cons.prems(1) by (simp add: window_inv_def ctl_inv_def rx_inv_def)
  have ub: "unat (u - t) \<le> 500000"
    using Cons.prems(2) x by simp
  from window_tick[OF w0 ub, of f]
  obtain s1 new1 where t1: "trampProcess f u (s\<lparr>serialRx := serialRx s @ bs\<rparr>) = Inr s1"
    and w1: "window_inv t s1" and tx1: "serialTx s1 = serialTx s @ new1"
    and n1: "\<forall>b \<in> set new1. b ! 1 \<noteq> 118"
    by auto
  have rest: "\<forall>(u, bs) \<in> set run. unat (u - t) \<le> 500000"
    using Cons.prems(2) by simp
  from Cons.IH[OF w1 rest]
  obtain s' new2 where t2: "trampProcess_feed f run s1 = Inr s'"
    and w2: "window_inv t s'" and tx2: "serialTx s' = serialTx s1 @ new2"
    and n2: "\<forall>b \<in> set new2. b ! 1 \<noteq> 118"
    by auto
  have "trampProcess_feed f (x # run) s = Inr s'"
    using x t1 t2 by simp
  moreover have "serialTx s' = serialTx s @ (new1 @ new2)"
    using tx1 tx2 by simp
  moreover have "\<forall>b \<in> set (new1 @ new2). b ! 1 \<noteq> 118"
    using n1 n2 by auto
  ultimately show ?case
    using w2 by blast
qed

lemma check_freq_pw_tick_gen:
  assumes "trampStatus s = TRAMP_STATUS_CHECK_FREQ_PW" and "trampSerialPort s" and "rx_inv s"
    and "trampReceive f s = Inr (r, s1)" and "r \<noteq> 118"
  shows "trampProcess f u s = Inr
           (if cmp32 u (lastQueryTimeUs s) > 200 * 1000 then
              s1\<lparr>trampReceiveState := S_WAIT_LEN, trampReceivePos := 0,
                 trampReqBuffer := CommandPacket 118 0,
                 serialTx := serialTx s @ [CommandPacket 118 0],
                 lastQueryTimeUs := u\<rparr>
            else s1)"
proof -
  from trampReceive_total[OF assms(3), of f] assms(4)
  have fr: "trampSerialPort s1 = trampSerialPort s" "serialTx s1 = serialTx s"
      "trampStatus s1 = trampStatus s" "lastQueryTimeUs s1 = lastQueryTimeUs s"
    by auto
  have st: "trampStatus s1 = TRAMP_STATUS_CHECK_FREQ_PW" and po: "trampSerialPort s1"
    using fr assms by simp_all
  have "trampProcess f u s = Inr (trampProcess_status u s1)"
    using assms(1,4,5) st by (simp add: trampProcess_def trampProcess_reply_keeps)
  then show ?thesis
    using fr by (simp add: trampProcess_status_check[OF st po])
qed

lemma trampProcess_ticks_fixed:
  "(\<forall>x \<in> set us. trampProcess f x s = Inr s) \<Longrightarrow> trampProcess_ticks f us s = Inr s"
  by (induction us) simp_all

text \<open>A tick adds at most one frame to what has been sent, and outside the SetFreqPw branch
  that frame is a query.\<close>

lemma trampQuery_serialTx:
  "serialTx (trampQuery c s) = serialTx s
   \<or> serialTx (trampQuery c s) = serialTx s @ [CommandPacket c 0]"
  by (cases "trampSerialPort s")
     (simp_all add: trampQuery_def trampResetReceiver_def trampCmdU16_packet trampCmdU16_closed)

lemma trampProcess_status_serialTx:
  assumes "trampStatus s \<noteq> TRAMP_STATUS_SET_FREQ_PW"
  shows "serialTx (trampProcess_status t s) = serialTx s
         \<or> serialTx (trampProcess_status t s) = serialTx s @ [CommandPacket 114 0]
         \<or> serialTx (trampProcess_status t s) = serialTx s @ [CommandPacket 118 0]"
  using assms trampQuery_serialTx[of 114 s] trampQuery_serialTx[of 118 s]
  by (cases "trampStatus s")
     (auto simp add: trampProcess_status_def trampQueryR_def trampQueryV_def)

lemma tick_sends_set_command:
  assumes "ctl_inv s" and "trampProcess f t s = Inr s1"
    and "serialTx s1 = serialTx s @ [CommandPacket 70 p]
         \<or> serialTx s1 = serialTx s @ [CommandPacket 80 p]"
  shows "\<exists>r s0. trampReceive f s = Inr (r, s0)
           \<and> (trampStatus s = TRAMP_STATUS_SET_FREQ_PW
                \<or> (trampStatus s = TRAMP_STATUS_CHECK_FREQ_PW \<and> r = 118))"
proof -
  from assms(1) have rx: "rx_inv s" by (simp add: ctl_inv_def)
  from trampReceive_total[OF rx, of f]
  obtain r s0 where rc: "trampReceive f s = Inr (r, s0)"
    and fr: "serialTx s0 = serialTx s" "trampStatus s0 = trampStatus s"
    by blast
  have nb: "trampStatus s \<noteq> TRAMP_STATUS_BAD_DEVICE"
  proof
    assume "trampStatus s = TRAMP_STATUS_BAD_DEVICE"
    then have "s1 = s" using assms(2) by (simp add: trampProcess_def)
    with assms(3) show False by simp
  qed
  define s2 where "s2 = trampProcess_reply r s0"
  have p: "s1 = trampProcess_status t s2"
    using nb rc assms(2) by (simp add: trampProcess_def s2_def)
  have tx2: "serialTx s2 = serialTx s"
    using fr by (simp add: s2_def trampProcess_reply_def)
  have code: "CommandPacket c q \<noteq> CommandPacket c' q'" if "c \<noteq> c'" for c c' q q'
    using that by (simp add: CommandPacket_bytes)
  have ne: "CommandPacket 114 0 \<noteq> CommandPacket 70 p" "CommandPacket 118 0 \<noteq> CommandPacket 70 p"
    "CommandPacket 114 0 \<noteq> CommandPacket 80 p" "CommandPacket 118 0 \<noteq> CommandPacket 80 p"
    by (rule code, simp)+
  have set2: "trampStatus s2 = TRAMP_STATUS_SET_FREQ_PW"
  proof (rule ccontr)
    assume "trampStatus s2 \<noteq> TRAMP_STATUS_SET_FREQ_PW"
    from trampProcess_status_serialTx[OF this, of t] p tx2 assms(3)
    show False using ne by auto
  qed
  have "trampStatus s = TRAMP_STATUS_SET_FREQ_PW
          \<or> (trampStatus s = TRAMP_STATUS_CHECK_FREQ_PW \<and> r = 118)"
    using set2 fr by (auto simp add: s2_def trampProcess_reply_def split: if_splits)
  with rc show ?thesis by blast
qed

text \<open>
  Claim C4, amended. When a tick at time \<open>t\<close> in a reachable state sends a set-frequency
  ('F') or set-power ('P') command, whether it started in SetFreqPw or entered it from
  CheckFreqPw on a status reply, it ends in CheckFreqPw and the last query time is
  \<open>t + 300000\<close> microseconds. The 200 ms test of CheckFreqPw counts from that time, so the
  first status query comes later than 500 ms after \<open>t\<close>, not at 300 ms:
  \<^item> whatever bytes arrive, the ticks at most 500 ms after \<open>t\<close> send no frame with code
    'v' (118);
  \<^item> with no byte waiting, those ticks leave the state as it is, and a tick later than
    500 ms after \<open>t\<close> (by less than \<open>2 ^ 31\<close> microseconds plus 300 ms, the range of the
    signed comparison) sends exactly one status query, resets the receiver and takes its
    time as the last query time;
  \<^item> at any tick in CheckFreqPw with that last query time on which no status reply
    completes, the query is sent exactly in that range.
\<close>

theorem check_freq_pw_query_deadline:
  assumes "reachable f tbl s" and "trampProcess f t s = Inr s1"
    and "serialTx s1 = serialTx s @ [CommandPacket 70 p]
         \<or> serialTx s1 = serialTx s @ [CommandPacket 80 p]"
  shows "trampStatus s1 = TRAMP_STATUS_CHECK_FREQ_PW
       \<and> lastQueryTimeUs s1 = t + 300 * 1000
       \<and> (\<forall>run. (\<forall>(u, bs) \<in> set run. unat (u - t) \<le> 500000) \<longrightarrow>
              (\<exists>s' new. trampProcess_feed f run s1 = Inr s'
                  \<and> serialTx s' = serialTx s1 @ new \<and> (\<forall>b \<in> set new. b ! 1 \<noteq> 118)))
       \<and> (serialRx s1 = [] \<longrightarrow>
            (\<forall>us. (\<forall>x \<in> set us. unat (x - t) \<le> 500000) \<longrightarrow>
                    trampProcess_ticks f us s1 = Inr s1)
            \<and> (\<forall>u. 500000 < unat (u - t) \<and> unat (u - t) < 2 ^ 31 + 300000 \<longrightarrow>
                    trampProcess f u s1 = Inr
                      (s1\<lparr>trampReceiveState := S_WAIT_LEN, trampReceivePos := 0,
                         trampReqBuffer := CommandPacket 118 0,
                         serialTx := serialTx s1 @ [CommandPacket 118 0],
                         lastQueryTimeUs := u\<rparr>)))
       \<and> (\<forall>u s2 r s3.
             reachable f tbl s2 \<and> trampStatus s2 = TRAMP_STATUS_CHECK_FREQ_PW
             \<and> lastQueryTimeUs s2 = t + 300 * 1000
             \<and> trampReceive f s2 = Inr (r, s3) \<and> r \<noteq> 118 \<longrightarrow>
             trampProcess f u s2 = Inr
               (if 500000 < unat (u - t) \<and> unat (u - t) < 2 ^ 31 + 300000 then
                  s3\<lparr>trampReceiveState := S_WAIT_LEN, trampReceivePos := 0,
                     trampReqBuffer := CommandPacket 118 0,
                     serialTx := serialTx s2 @ [CommandPacket 118 0],
                     lastQueryTimeUs := u\<rparr>
                else s3))"
proof -
  from reachable_inv[OF assms(1)] have ci: "ctl_inv s" .
  from tick_sends_set_command[OF ci assms(2,3)]
  obtain r0 s0 where rc0: "trampReceive f s = Inr (r0, s0)"
    and en: "trampStatus s = TRAMP_STATUS_SET_FREQ_PW
             \<or> (trampStatus s = TRAMP_STATUS_CHECK_FREQ_PW \<and> r0 = 118)"
    by blast
  from ci en have po: "trampSerialPort s" and rx: "rx_inv s"
    by (auto simp add: ctl_inv_def)
  from trampReceive_total[OF rx, of f] rc0
  have tx0: "serialTx s0 = serialTx s"
    by auto
  from tick_set_freq_pw_branch[OF po rx rc0 en, of t]
  have p: "trampProcess f t s = Inr
               (if trampConfFreq s \<noteq> trampCurFreq s0 then
                  s0\<lparr>trampReqBuffer := CommandPacket 70 (ucast (trampConfFreq s)),
                     serialTx := serialTx s @ [CommandPacket 70 (ucast (trampConfFreq s))],
                     trampStatus := TRAMP_STATUS_CHECK_FREQ_PW,
                     lastQueryTimeUs := t + 300 * 1000\<rparr>
                else if trampConfPower s \<noteq> trampCurConfigPower s0 then
                  s0\<lparr>trampReqBuffer := CommandPacket 80 (trampConfPower s),
                     serialTx := serialTx s @ [CommandPacket 80 (trampConfPower s)],
                     trampStatus := TRAMP_STATUS_CHECK_FREQ_PW,
                     lastQueryTimeUs := t + 300 * 1000\<rparr>
                else s0\<lparr>trampStatus := TRAMP_STATUS_ONLINE\<rparr>)" .
  have both: "trampStatus s1 = TRAMP_STATUS_CHECK_FREQ_PW \<and> lastQueryTimeUs s1 = t + 300 * 1000"
  proof (cases "trampConfFreq s \<noteq> trampCurFreq s0")
    case True
    with p assms(2) show ?thesis by auto
  next
    case False
    note nf = this
    show ?thesis
    proof (cases "trampConfPower s \<noteq> trampCurConfigPower s0")
      case True
      with nf p assms(2) show ?thesis by auto
    next
      case False
      with nf p assms(2) have "serialTx s1 = serialTx s"
        using tx0 by auto
      with assms(3) show ?thesis by simp
    qed
  qed
  then have st1: "trampStatus s1 = TRAMP_STATUS_CHECK_FREQ_PW"
    and lq: "lastQueryTimeUs s1 = t + 300 * 1000"
    by simp_all
  have tick: "trampProcess f u s2 = Inr
               (if 500000 < unat (u - t) \<and> unat (u - t) < 2 ^ 31 + 300000 then
                  s3\<lparr>trampReceiveState := S_WAIT_LEN, trampReceivePos := 0,
                     trampReqBuffer := CommandPacket 118 0,
                     serialTx := serialTx s2 @ [CommandPacket 118 0],
                     lastQueryTimeUs := u\<rparr>
                else s3)"
    if h: "reachable f tbl s2" "trampStatus s2 = TRAMP_STATUS_CHECK_FREQ_PW"
      "lastQueryTimeUs s2 = t + 300 * 1000" "trampReceive f s2 = Inr (r, s3)" "r \<noteq> 118"
    for u s2 r s3
  proof -
    from reachable_inv[OF h(1)] h(2)
    have po2: "trampSerialPort s2" and rx2: "rx_inv s2"
      by (simp_all add: ctl_inv_def)
    show ?thesis
      using check_freq_pw_tick_gen[OF h(2) po2 rx2 h(4) h(5), of u]
      by (simp only: h(3) cmp32_after_delay)
  qed
  have r1: "reachable f tbl s1"
    using assms(1,2) by (rule reachable.process)
  have silent: "trampProcess f u s1 = Inr
               (if 500000 < unat (u - t) \<and> unat (u - t) < 2 ^ 31 + 300000 then
                  s1\<lparr>trampReceiveState := S_WAIT_LEN, trampReceivePos := 0,
                     trampReqBuffer := CommandPacket 118 0,
                     serialTx := serialTx s1 @ [CommandPacket 118 0],
                     lastQueryTimeUs := u\<rparr>
                else s1)"
    if e: "serialRx s1 = []" for u
    using tick[OF r1 st1 lq trampReceive_idle[OF e, of f], of u] by simp
  have early: "trampProcess_ticks f us s1 = Inr s1"
    if e: "serialRx s1 = []" and b: "\<forall>x \<in> set us. unat (x - t) \<le> 500000" for us
  proof (rule trampProcess_ticks_fixed, rule ballI)
    fix x assume "x \<in> set us"
    with b have "unat (x - t) \<le> 500000" by blast
    then show "trampProcess f x s1 = Inr s1"
      using silent[OF e, of x] by simp
  qed
  have w1: "window_inv t s1"
    using reachable_inv[OF r1] st1 lq by (simp add: window_inv_def)
  show ?thesis
  proof (intro conjI impI allI)
    show "trampStatus s1 = TRAMP_STATUS_CHECK_FREQ_PW" by (rule st1)
  next
    show "lastQueryTimeUs s1 = t + 300 * 1000" by (rule lq)
  next
    fix run :: "(u32 \<times> u8 list) list"
    assume "\<forall>(u, bs) \<in> set run. unat (u - t) \<le> 500000"
    from window_feed[OF w1 this, of f]
    show "\<exists>s' new. trampProcess_feed f run s1 = Inr s'
            \<and> serialTx s' = serialTx s1 @ new \<and> (\<forall>b \<in> set new. b ! 1 \<noteq> 118)"
      by blast
  next
    fix us
    assume "serialRx s1 = []" and "\<forall>x \<in> set us. unat (x - t) \<le> 500000"
    then show "trampProcess_ticks f us s1 = Inr s1" by (rule early)
  next
    fix u
    assume e: "serialRx s1 = []"
      and "500000 < unat (u - t) \<and> unat (u - t) < 2 ^ 31 + 300000"
    then show "trampProcess f u s1 = Inr
                      (s1\<lparr>trampReceiveState := S_WAIT_LEN, trampReceivePos := 0,
                         trampReqBuffer := CommandPacket 118 0,
                         serialTx := serialTx s1 @ [CommandPacket 118 0],
                         lastQueryTimeUs := u\<rparr>)"
      using silent[OF e, of u] by simp
  next
    fix u s2 r s3
    assume "reachable f tbl s2 \<and> trampStatus s2 = TRAMP_STATUS_CHECK_FREQ_PW
             \<and> lastQueryTimeUs s2 = t + 300 * 1000
             \<and> trampReceive f s2 = Inr (r, s3) \<and> r \<noteq> 118"
    then show "trampProcess f u s2 = Inr
               (if 500000 < unat (u - t) \<and> unat (u - t) < 2 ^ 31 + 300000 then
                  s3\<lparr>trampReceiveState := S_WAIT_LEN, trampReceivePos := 0,
                     trampReqBuffer := CommandPacket 118 0,
                     serialTx := serialTx s2 @ [CommandPacket 118 0],
                     lastQueryTimeUs := u\<rparr>
                else s3)"
      using tick[of s2 r s3 u] by blast
  qed
qed

text \<open>
  The claim as first stated fails at the deadline it names: after the set-frequency command
  of the tick at time 0, the ticks at 300 ms and at 400 ms send nothing and change nothing.
\<close>

theorem status_query_not_at_300ms:
  "trampProcess keep_bandchan 0 commit_state = Inr check_state
   \<and> trampStatus check_state = TRAMP_STATUS_CHECK_FREQ_PW
   \<and> serialTx check_state = [CommandPacket 70 5880]
   \<and> trampProcess keep_bandchan 300000 check_state = Inr check_state
   \<and> trampProcess keep_bandchan 400000 check_state = Inr check_state
   \<and> trampProcess_ticks keep_bandchan [300000, 400000] check_state = Inr check_state"
  by code_simp

lemma reply_state_reachable: "reachable f tbl reply_state"
proof -
  let ?c = "trampSetRFPower 200 commit_state"
  let ?k = "check_state\<lparr>trampConfPower := 200\<rparr>"
  have "reachable f tbl ?c"
    by (intro reachable.set_power commit_state_reachable)
  moreover have "trampProcess f 0 ?c = Inr ?k"
    by code_simp
  ultimately have "reachable f tbl ?k"
    by (rule reachable.process)
  then have "reachable f tbl
               (?k\<lparr>serialRx := serialRx ?k @ [15, 118, 248, 22, 25, 0, 0, 0, 25, 0, 0, 0, 0, 0, 182, 0]\<rparr>)"
    by (rule reachable.arrive)
  moreover have "?k\<lparr>serialRx := serialRx ?k @ [15, 118, 248, 22, 25, 0, 0, 0, 25, 0, 0, 0, 0, 0, 182, 0]\<rparr>
                 = reply_state"
    by code_simp
  ultimately show ?thesis by simp
qed

theorem check_freq_pw_query_deadline_witness:
  "reachable keep_bandchan [] commit_state
   \<and> trampStatus commit_state = TRAMP_STATUS_SET_FREQ_PW
   \<and> trampProcess keep_bandchan 0 commit_state = Inr check_state
   \<and> serialTx check_state = serialTx commit_state @ [CommandPacket 70 5880]
   \<and> trampStatus check_state = TRAMP_STATUS_CHECK_FREQ_PW
   \<and> lastQueryTimeUs check_state = 300000
   \<and> trampProcess_ticks keep_bandchan [100000, 300000, 500000] check_state = Inr check_state
   \<and> trampProcess keep_bandchan 500001 check_state = Inr
        (check_state\<lparr>trampReceiveState := S_WAIT_LEN, trampReceivePos := 0,
           trampReqBuffer := CommandPacket 118 0,
           serialTx := serialTx check_state @ [CommandPacket 118 0],
           lastQueryTimeUs := 500001\<rparr>)
   \<and> reachable keep_bandchan [] reply_state
   \<and> trampStatus reply_state = TRAMP_STATUS_CHECK_FREQ_PW
   \<and> trampProcess keep_bandchan 100000 reply_state = Inr resent_state
   \<and> serialTx resent_state = serialTx reply_state @ [CommandPacket 80 200]
   \<and> trampStatus resent_state = TRAMP_STATUS_CHECK_FREQ_PW
   \<and> lastQueryTimeUs resent_state = 400000
   \<and> trampProcess_ticks keep_bandchan [400000, 600000] resent_state = Inr resent_state
   \<and> trampProcess keep_bandchan 600001 resent_state = Inr
        (resent_state\<lparr>trampReceiveState := S_WAIT_LEN, trampReceivePos := 0,
           trampReqBuffer := CommandPacket 118 0,
           serialTx := serialTx resent_state @ [CommandPacket 118 0],
           lastQueryTimeUs := 600001\<rparr>)"
proof -
  have r: "reachable keep_bandchan [] commit_state"
    by (rule commit_state_reachable)
  have st: "trampStatus commit_state = TRAMP_STATUS_SET_FREQ_PW"
    by (simp add: commit_state_def)
  have p: "trampProcess keep_bandchan 0 commit_state = Inr check_state"
    by code_simp
  have tx: "serialTx check_state = serialTx commit_state @ [CommandPacket 70 5880]"
    by (simp add: check_state_def commit_state_def online_state_def tramp_init_def)
  have e: "serialRx check_state = []"
    by (simp add: check_state_def commit_state_def online_state_def tramp_init_def)
  have b: "\<forall>x \<in> set [100000, 300000, 500000 :: u32]. unat (x - 0) \<le> 500000"
    by simp
  have a: "500000 < unat (500001 - 0 :: u32) \<and> unat (500001 - 0 :: u32) < 2 ^ 31 + 300000"
    by simp
  note d = disjI1[OF tx]
  note w = check_freq_pw_query_deadline[OF r p d]
  from w have c: "trampStatus check_state = TRAMP_STATUS_CHECK_FREQ_PW"
    and q: "lastQueryTimeUs check_state = 300000"
    by simp_all
  from w e b
  have ticks: "trampProcess_ticks keep_bandchan [100000, 300000, 500000] check_state
                 = Inr check_state"
    by blast
  from w e a
  have late: "trampProcess keep_bandchan 500001 check_state = Inr
        (check_state\<lparr>trampReceiveState := S_WAIT_LEN, trampReceivePos := 0,
           trampReqBuffer := CommandPacket 118 0,
           serialTx := serialTx check_state @ [CommandPacket 118 0],
           lastQueryTimeUs := 500001\<rparr>)"
    by blast
  have r': "reachable keep_bandchan [] reply_state"
    by (rule reply_state_reachable)
  have st': "trampStatus reply_state = TRAMP_STATUS_CHECK_FREQ_PW"
    by (simp add: reply_state_def check_state_def)
  have p': "trampProcess keep_bandchan 100000 reply_state = Inr resent_state"
    by code_simp
  have tx': "serialTx resent_state = serialTx reply_state @ [CommandPacket 80 200]"
    by (simp add: resent_state_def reply_state_def check_state_def)
  have e': "serialRx resent_state = []"
    by (simp add: resent_state_def)
  have b': "\<forall>x \<in> set [400000, 600000 :: u32]. unat (x - 100000) \<le> 500000"
    by simp
  have a': "500000 < unat (600001 - 100000 :: u32)
            \<and> unat (600001 - 100000 :: u32) < 2 ^ 31 + 300000"
    by simp
  note d' = disjI2[OF tx']
  note w' = check_freq_pw_query_deadline[OF r' p' d']
  from w' have c': "trampStatus resent_state = TRAMP_STATUS_CHECK_FREQ_PW"
    and q': "lastQueryTimeUs resent_state = 400000"
    by simp_all
  from w' e' b'
  have ticks': "trampProcess_ticks keep_bandchan [400000, 600000] resent_state
                 = Inr resent_state"
    by blast
  from w' e' a'
  have late': "trampProcess keep_bandchan 600001 resent_state = Inr
        (resent_state\<lparr>trampReceiveState := S_WAIT_LEN, trampReceivePos := 0,
           trampReqBuffer := CommandPacket 118 0,
           serialTx := serialTx resent_state @ [CommandPacket 118 0],
           lastQueryTimeUs := 600001\<rparr>)"
    by blast
  from r st p tx c q ticks late r' st' p' tx' c' q' ticks' late' show ?thesis
    by (intro conjI)
qed

end
